theory Spec2Isabelle
  imports Main "HOL-Library.Word" "HOL-Library.Sublist" "HOL-Library.Multiset"
begin

unbundle bit_operations_syntax

section \<open>pg-oui: OUI dataset builder and lookup engine\<close>

text \<open>
  A shallow embedding of the Go package \<^verbatim>\<open>pg_oui\<close> and of its command
  \<^verbatim>\<open>update_data\<close>: the lookup engine (\<^verbatim>\<open>Open\<close>, \<^verbatim>\<open>DB.Lookup\<close>, \<^verbatim>\<open>DB.vendorByID\<close>,
  \<^verbatim>\<open>atoi\<close>), the offset indexer (\<^verbatim>\<open>createIndex\<close>), the name normalizer
  (\<^verbatim>\<open>simplifyName\<close>) and the dataset builders (\<^verbatim>\<open>buildFromCSV\<close>, \<^verbatim>\<open>newTemplateData\<close>).

  Conventions. A Go \<^verbatim>\<open>string\<close> or \<^verbatim>\<open>[]byte\<close> is a \<^typ>\<open>string\<close>, one \<^typ>\<open>char\<close> per
  byte, so \<^const>\<open>length\<close> is Go's \<^verbatim>\<open>len\<close>. Go's \<^verbatim>\<open>int\<close> and \<^verbatim>\<open>int64\<close> are
  \<^typ>\<open>64 word\<close>, read as two's complement by \<^const>\<open>sint\<close> (a 64-bit platform), where
  the code reads them from a file; the counter of vendor IDs, which only counts rows,
  is an \<^typ>\<open>int\<close>. A run-time panic is the value \<open>Panic\<close>; an \<^verbatim>\<open>error\<close> return is
  \<open>Inl\<close> of a sum. A CSV file enters as the list of what the reader returns for it,
  and the file system is taken to work: the three files are there to open, and every
  write succeeds.
\<close>

subsection \<open>Results\<close>

datatype error =
    EmptyCSV | ReadHeader | ReadRow | ReadEntries | ParseIndex | IndexEmpty
  | IdOutOfRange | OffsetOutOfRange | AtoiEmpty | AtoiInvalid | TokenTooLong
  | CreateIndexFailed

datatype 'a outcome = Return 'a | Panic

type_synonym int64 = "64 word"

subsection \<open>Bytes and the string helpers of the standard library\<close>

definition HT :: char where "HT = CHR 0x09"
definition LF :: char where "LF = CHR 0x0A"
definition VT :: char where "VT = CHR 0x0B"
definition FF :: char where "FF = CHR 0x0C"
definition CR :: char where "CR = CHR 0x0D"

definition byte :: "char \<Rightarrow> nat" where
  "byte c = of_char c"

definition isASCII :: "string \<Rightarrow> bool" where
  "isASCII s = list_all (\<lambda>c. byte c < 128) s"

definition lowerASCII :: "char \<Rightarrow> char" where
  "lowerASCII c = (if byte (CHR ''A'') \<le> byte c \<and> byte c \<le> byte (CHR ''Z'')
                   then char_of (byte c + 32) else c)"

text \<open>
  \<^verbatim>\<open>strings.ToLower\<close>: an ASCII-only string is lower-cased byte by byte; any other
  string goes through the Unicode tables, which are not part of this repository and are
  taken as the parameter \<open>U\<close>.
\<close>

definition ToLower :: "(string \<Rightarrow> string) \<Rightarrow> string \<Rightarrow> string" where
  "ToLower U s = (if isASCII s then map lowerASCII s else U s)"

text \<open>
  \<^verbatim>\<open>macCleaner = strings.NewReplacer(":", "", "-", "", ".", "", " ", "")\<close>: every
  occurrence of one of the four bytes is deleted.
\<close>

definition macCleaner :: "string \<Rightarrow> string" where
  "macCleaner s = filter (\<lambda>c. c \<notin> set '':-. '') s"

text \<open>\<^verbatim>\<open>bytes.TrimRight(b, cutset)\<close> for an ASCII cutset.\<close>

definition TrimRight :: "string \<Rightarrow> string \<Rightarrow> string" where
  "TrimRight b cutset = rev (dropWhile (\<lambda>c. c \<in> set cutset) (rev b))"

text \<open>\<^verbatim>\<open>bytes.IndexByte\<close>: \<open>None\<close> is Go's \<open>-1\<close>.\<close>

fun IndexByte :: "string \<Rightarrow> char \<Rightarrow> nat option" where
  "IndexByte [] c = None"
| "IndexByte (x # xs) c = (if x = c then Some 0 else map_option Suc (IndexByte xs c))"

subsection \<open>The lookup engine\<close>

text \<open>
  \<^verbatim>\<open>type DB struct { entries map[string]int; vendors []byte; offsets []int64 }\<close>
\<close>

record DB =
  entries :: "string \<rightharpoonup> int64"
  vendors :: string
  offsets :: "int64 list"

text \<open>
  \<^verbatim>\<open>DB.vendorByID\<close>. The two implicit run-time checks of Go are written out: indexing
  \<^verbatim>\<open>db.offsets[idx]\<close> and slicing \<^verbatim>\<open>db.vendors[start:]\<close> panic when the index is out of
  range; the fallback guards \<^verbatim>\<open>int(start) >= len(db.vendors)\<close> only, so a negative
  \<open>start\<close> reaches the slice expression.
\<close>

definition vendorByID :: "DB \<Rightarrow> int64 \<Rightarrow> (error + string) outcome" where
  "vendorByID db ident =
    (let idx = ident - 1 in
     if sint idx < 0 \<or> int (length (offsets db)) \<le> sint (idx + 1) then Return (Inl IdOutOfRange)
     else if \<not> (nat (sint idx) + 1 < length (offsets db)) then Panic
     else
       let start = offsets db ! nat (sint idx);
           end = offsets db ! (nat (sint idx) + 1)
       in if sint start < 0 \<or> sint end < sint start \<or> int (length (vendors db)) < sint end then
            (if int (length (vendors db)) \<le> sint start then Return (Inl OffsetOutOfRange)
             else if sint start < 0 then Panic
             else
               let b = drop (nat (sint start)) (vendors db)
               in case IndexByte b LF of
                    Some i \<Rightarrow> Return (Inr (TrimRight (take i b) [CR, LF]))
                  | None \<Rightarrow> Return (Inr (TrimRight b [CR, LF])))
          else
            let line = take (nat (sint end) - nat (sint start)) (drop (nat (sint start)) (vendors db))
            in Return (Inr (TrimRight line [CR, LF])))"

text \<open>\<^verbatim>\<open>DB.Lookup\<close>.\<close>

definition Lookup :: "(string \<Rightarrow> string) \<Rightarrow> DB \<Rightarrow> string \<Rightarrow> (string \<times> bool) outcome" where
  "Lookup U db s =
    (let s1 = macCleaner s in
     if length s1 < 6 then Return ('''', False)
     else
       let s2 = (if length s1 > 6 then take 6 s1 else s1);
           s3 = ToLower U s2
       in case entries db s3 of
            None \<Rightarrow> Return ('''', False)
          | Some ident \<Rightarrow>
              if sint ident \<le> 0 then Return ('''', False)
              else (case vendorByID db ident of
                      Panic \<Rightarrow> Panic
                    | Return (Inl e) \<Rightarrow> Return ('''', False)
                    | Return (Inr v) \<Rightarrow> Return (v, True)))"

subsection \<open>Loading a dataset\<close>

text \<open>
  \<^verbatim>\<open>atoi\<close>: the accumulator is a Go \<^verbatim>\<open>int\<close>, so \<open>n*10 + d\<close> wraps at 64 bits.
\<close>

fun atoiLoop :: "int64 \<Rightarrow> string \<Rightarrow> error + int64" where
  "atoiLoop n [] = Inr n"
| "atoiLoop n (c # cs) =
     (if byte c < byte (CHR ''0'') \<or> byte c > byte (CHR ''9'') then Inl AtoiInvalid
      else atoiLoop (n * 10 + of_nat (byte c - byte (CHR ''0''))) cs)"

definition atoi :: "string \<Rightarrow> error + int64" where
  "atoi s =
    (if s = [] then Inl AtoiEmpty
     else if hd s = CHR ''-'' then
       (if length s = 1 then Inl AtoiInvalid
        else case atoiLoop 0 (tl s) of Inl e \<Rightarrow> Inl e | Inr n \<Rightarrow> Inr (- n))
     else atoiLoop 0 s)"

text \<open>
  What one call of \<^verbatim>\<open>csv.Reader.Read\<close> gives before end of file: a record, or an error
  (a malformed row, or a row whose field count differs from the first row's). A CSV
  file is the list of these results, in order; end of file follows the last one.
\<close>

datatype read_result = Record "string list" | ReadFailure

text \<open>The loop of \<^verbatim>\<open>Open\<close> that fills the \<^verbatim>\<open>entries\<close> map.\<close>

fun loadEntries :: "(string \<rightharpoonup> int64) \<Rightarrow> read_result list \<Rightarrow> error + (string \<rightharpoonup> int64)" where
  "loadEntries m [] = Inr m"
| "loadEntries m (ReadFailure # rest) = Inl ReadEntries"
| "loadEntries m (Record rec # rest) =
     (if length rec < 2 then loadEntries m rest
      else case atoi (rec ! 1) of
             Inl e \<Rightarrow> loadEntries m rest
           | Inr ident \<Rightarrow> loadEntries (m(rec ! 0 \<mapsto> ident)) rest)"

text \<open>
  The index file is a sequence of bytes; \<^verbatim>\<open>binary.Read(r, binary.LittleEndian, &off)\<close>
  takes eight of them at a time, reports end of file when none is left and an
  unexpected end of file when fewer than eight are.
\<close>

type_synonym bytes = "8 word list"

definition le64_word :: "bytes \<Rightarrow> int64" where
  "le64_word bs = foldr (\<lambda>b acc. ucast b OR push_bit 8 acc) bs 0"

definition le64_bytes :: "int64 \<Rightarrow> bytes" where
  "le64_bytes w = map (\<lambda>i. ucast (drop_bit (8 * i) w)) [0..<8]"

function readOffsets :: "bytes \<Rightarrow> error + int64 list" where
  "readOffsets bs =
     (if bs = [] then Inr []
      else if length bs < 8 then Inl ParseIndex
      else case readOffsets (drop 8 bs) of
             Inl e \<Rightarrow> Inl e
           | Inr offs \<Rightarrow> Inr (le64_word (take 8 bs) # offs))"
  by pat_completeness auto
termination
  by (relation "measure length") auto

declare readOffsets.simps [simp del]

text \<open>
  \<^verbatim>\<open>Open\<close>, once the three files have been found: the entries file as the CSV reader
  delivers it, the vendors file and the index file as bytes.
\<close>

definition Open :: "read_result list \<Rightarrow> string \<Rightarrow> bytes \<Rightarrow> error + DB" where
  "Open entriesFile vendorsBytes indexBytes =
    (case loadEntries Map.empty entriesFile of
       Inl e \<Rightarrow> Inl e
     | Inr m \<Rightarrow>
        (case readOffsets indexBytes of
           Inl e \<Rightarrow> Inl e
         | Inr offs \<Rightarrow>
             if length offs = 0 then Inl IndexEmpty
             else Inr \<lparr>entries = m, vendors = vendorsBytes, offsets = offs\<rparr>))"

subsection \<open>The offset indexer\<close>

text \<open>
  \<^verbatim>\<open>bufio.Scanner\<close> with its default split function \<^verbatim>\<open>ScanLines\<close>, run over the whole
  file. A token is the text up to the next line feed, without the line feed and
  without one carriage return before it (\<^verbatim>\<open>dropCR\<close>); text left after the last line
  feed is a token when it is not empty. The scanner's buffer holds at most
  \<^verbatim>\<open>bufio.MaxScanTokenSize\<close> bytes, so it stops with \<^verbatim>\<open>ErrTooLong\<close> once that many
  bytes are pending without a line feed. \<open>scanLines cur rest\<close> gives the tokens and
  whether the scan stopped with that error; \<open>cur\<close> is the pending text.
\<close>

definition maxScanTokenSize :: int where
  "maxScanTokenSize = 65536"

definition dropCR :: "string \<Rightarrow> string" where
  "dropCR d = (if d \<noteq> [] \<and> last d = CR then butlast d else d)"

fun scanLines :: "string \<Rightarrow> string \<Rightarrow> string list \<times> bool" where
  "scanLines cur [] =
     (if cur = [] then ([], False)
      else if maxScanTokenSize \<le> int (length cur) then ([], True)
      else ([dropCR cur], False))"
| "scanLines cur (c # cs) =
     (if c = LF then
        (if maxScanTokenSize \<le> int (length cur) then ([], True)
         else case scanLines [] cs of (toks, tooLong) \<Rightarrow> (dropCR cur # toks, tooLong))
      else scanLines (cur @ [c]) cs)"

text \<open>
  The loop of \<^verbatim>\<open>createIndex\<close>: \<^verbatim>\<open>off += int64(len(scanner.Bytes()) + 1)\<close>, then the new
  offset is written.
\<close>

fun writeOffsets :: "int64 \<Rightarrow> string list \<Rightarrow> int64 list" where
  "writeOffsets off [] = []"
| "writeOffsets off (tok # toks) =
     (let off' = off + of_nat (length tok + 1) in off' # writeOffsets off' toks)"

text \<open>
  \<^verbatim>\<open>createIndex\<close> on the contents of the data file: the offsets written to the index
  file (the initial 0 first), and the error returned, if any. Opening, creating and
  writing the files are taken to succeed.
\<close>

definition indexOffsets :: "string \<Rightarrow> int64 list \<times> error option" where
  "indexOffsets dat =
     (case scanLines [] dat of
        (toks, tooLong) \<Rightarrow> (0 # writeOffsets 0 toks, if tooLong then Some TokenTooLong else None))"

definition createIndex :: "string \<Rightarrow> bytes \<times> error option" where
  "createIndex dat =
     (case indexOffsets dat of (offs, err) \<Rightarrow> (concat (map le64_bytes offs), err))"

subsection \<open>The CSV reader on plain text\<close>

text \<open>
  \<^verbatim>\<open>encoding/csv\<close> is not part of this repository. On text with no double quote and no
  carriage return its reader, with the default settings both callers use, splits the
  text into lines at line feeds, skips empty lines, splits each line into fields at
  commas, and reports an error for a record whose number of fields differs from the
  first record's. \<open>csvPlain\<close> is that behaviour; it is \<open>None\<close> on any other text.
\<close>

fun splitOn :: "char \<Rightarrow> string \<Rightarrow> string list" where
  "splitOn sep [] = [[]]"
| "splitOn sep (c # cs) =
     (if c = sep then [] # splitOn sep cs
      else case splitOn sep cs of [] \<Rightarrow> [[c]] | p # ps \<Rightarrow> (c # p) # ps)"

definition csvPlain :: "string \<Rightarrow> read_result list option" where
  "csvPlain txt =
     (if CHR 0x22 \<in> set txt \<or> CR \<in> set txt then None
      else case map (splitOn (CHR '','')) (filter (\<lambda>l. l \<noteq> []) (splitOn LF txt)) of
             [] \<Rightarrow> Some []
           | r # rs \<Rightarrow>
               Some (Record r # map (\<lambda>x. if length x = length r then Record x else ReadFailure) rs))"

subsection \<open>The name normalizer\<close>

text \<open>
  \<^verbatim>\<open>strings.TrimSpace\<close> removes leading and trailing white space as Unicode defines it.
  In UTF-8 these are the six ASCII bytes and the encodings of U+0085, U+00A0, U+1680,
  U+2000 to U+200A, U+2028, U+2029, U+202F, U+205F and U+3000.
\<close>

definition spaceRunes :: "string list" where
  "spaceRunes =
     [[HT], [LF], [VT], [FF], [CR], [CHR '' ''],
      [CHR 0xC2, CHR 0x85], [CHR 0xC2, CHR 0xA0], [CHR 0xE1, CHR 0x9A, CHR 0x80]]
     @ map (\<lambda>n. [CHR 0xE2, CHR 0x80, char_of (128 + n)]) [0..<11]
     @ [[CHR 0xE2, CHR 0x80, CHR 0xA8], [CHR 0xE2, CHR 0x80, CHR 0xA9],
        [CHR 0xE2, CHR 0x80, CHR 0xAF], [CHR 0xE2, CHR 0x81, CHR 0x9F],
        [CHR 0xE3, CHR 0x80, CHR 0x80]]"

function stripRunes :: "string list \<Rightarrow> string \<Rightarrow> string" where
  "stripRunes ps s =
     (case find (\<lambda>p. p \<noteq> [] \<and> prefix p s) ps of
        None \<Rightarrow> s
      | Some p \<Rightarrow> stripRunes ps (drop (length p) s))"
  by pat_completeness auto
termination
proof (relation "measure (\<lambda>(ps, s). length s)")
  show "wf (measure (\<lambda>(ps, s). length s))" by simp
next
  fix ps :: "string list" and s p :: string
  assume "find (\<lambda>p. p \<noteq> [] \<and> prefix p s) ps = Some p"
  then have "p \<noteq> []" "prefix p s" by (auto simp: find_Some_iff)
  then have "s \<noteq> []" by auto
  with \<open>p \<noteq> []\<close> show "((ps, drop (length p) s), (ps, s)) \<in> measure (\<lambda>(ps, s). length s)"
    by simp
qed

declare stripRunes.simps [simp del]

definition TrimSpace :: "string \<Rightarrow> string" where
  "TrimSpace s = rev (stripRunes (map rev spaceRunes) (rev (stripRunes spaceRunes s)))"

text \<open>
  The three patterns are regular expressions of this shape: a byte of a class, any
  number of bytes of a class, sequence and alternative. \<open>run r s\<close> lists what is left
  of \<open>s\<close> after each way of matching \<open>r\<close> at its start.
\<close>

datatype rx = Eps | OneOf "char list" | ManyOf "char list" | Seq rx rx | Alt rx rx

fun run :: "rx \<Rightarrow> string \<Rightarrow> string list" where
  "run Eps s = [s]"
| "run (OneOf cs) s = (case s of [] \<Rightarrow> [] | c # t \<Rightarrow> if c \<in> set cs then [t] else [])"
| "run (ManyOf cs) s = map (\<lambda>i. drop i s) [0..<Suc (length (takeWhile (\<lambda>c. c \<in> set cs) s))]"
| "run (Seq a b) s = concat (map (run b) (run a s))"
| "run (Alt a b) s = run a s @ run b s"

definition matches :: "rx \<Rightarrow> string \<Rightarrow> bool" where
  "matches r s = ([] \<in> set (run r s))"

definition upperASCII :: "char \<Rightarrow> char" where
  "upperASCII c = (if byte (CHR ''a'') \<le> byte c \<and> byte c \<le> byte (CHR ''z'')
                   then char_of (byte c - 32) else c)"

text \<open>A word under the flag \<^verbatim>\<open>(?i)\<close>: each letter in either case.\<close>

definition anyCase :: "string \<Rightarrow> rx" where
  "anyCase w = foldr (\<lambda>c r. Seq (OneOf [c, upperASCII c]) r) w Eps"

text \<open>
  \<^verbatim>\<open>(?i),?\s*(w1|...|wn)\.?$\<close> without the final \<^verbatim>\<open>$\<close>; the class \<^verbatim>\<open>\s\<close> is tab, line
  feed, form feed, carriage return and space.
\<close>

definition suffixPattern :: "string list \<Rightarrow> rx" where
  "suffixPattern ws =
     Seq (Alt (OneOf '','') Eps)
       (Seq (ManyOf [HT, LF, FF, CR, CHR '' ''])
         (Seq (foldr (\<lambda>w r. Alt (anyCase w) r) (butlast ws) (anyCase (last ws)))
           (Alt (OneOf ''.'') Eps)))"

definition llcRegex :: rx where
  "llcRegex = suffixPattern [''llc'', ''ltd'', ''limited'', ''inc'', ''incorporated'']"

definition coRegex :: rx where
  "coRegex = suffixPattern [''co'', ''company'', ''corp'', ''corporation'']"

definition gmbhRegex :: rx where
  "gmbhRegex = suffixPattern [''gmbh'']"

text \<open>
  \<^verbatim>\<open>re.ReplaceAll(b, []byte{})\<close> for a pattern \<open>r$\<close>: a match ends at the end of the text,
  the leftmost one is taken, and it is deleted.
\<close>

definition ReplaceAll :: "rx \<Rightarrow> string \<Rightarrow> string" where
  "ReplaceAll r b =
     (case find (\<lambda>i. matches r (drop i b)) [0..<length b] of
        Some i \<Rightarrow> take i b
      | None \<Rightarrow> b)"

text \<open>\<^verbatim>\<open>simplifyName\<close> of the library (file \<^verbatim>\<open>auto_update_enabled.go\<close>).\<close>

definition simplifyName :: "string \<Rightarrow> string" where
  "simplifyName name =
     (let b = name;
          b = ReplaceAll llcRegex b;
          b = ReplaceAll coRegex b;
          b = ReplaceAll gmbhRegex b
      in TrimSpace b)"

text \<open>\<^verbatim>\<open>simplifyName\<close> of the command \<^verbatim>\<open>update_data\<close>, which does not trim.\<close>

definition simplifyName_cmd :: "string \<Rightarrow> string" where
  "simplifyName_cmd name =
     (let b = name;
          b = ReplaceAll llcRegex b;
          b = ReplaceAll coRegex b;
          b = ReplaceAll gmbhRegex b
      in b)"

subsection \<open>The dataset builder\<close>

text \<open>
  \<^verbatim>\<open>strconv.ParseInt(s, 16, 64)\<close> with its error dropped, as the sort of the entries
  calls it: 0 on a syntax error, the nearest bound on a range error; a letter is a
  digit in either case. The cutoff
  \<open>1152921504606846976\<close> is \<open>2^60\<close>, beyond which one more digit overflows
  \<^verbatim>\<open>uint64\<close>; \<open>18446744073709551615\<close> is \<open>2^64 - 1\<close> and \<open>9223372036854775808\<close> is \<open>2^63\<close>.
\<close>

definition hexDigit :: "char \<Rightarrow> int option" where
  "hexDigit c =
     (if byte (CHR ''0'') \<le> byte c \<and> byte c \<le> byte (CHR ''9'')
        then Some (int (byte c - byte (CHR ''0'')))
      else if byte (CHR ''a'') \<le> byte (lowerASCII c) \<and> byte (lowerASCII c) \<le> byte (CHR ''f'')
        then Some (int (byte (lowerASCII c) - byte (CHR ''a'') + 10))
      else None)"

fun parseUint16 :: "int \<Rightarrow> string \<Rightarrow> int option" where
  "parseUint16 n [] = Some n"
| "parseUint16 n (c # cs) =
     (case hexDigit c of
        None \<Rightarrow> None
      | Some d \<Rightarrow>
          if 1152921504606846976 \<le> n then Some 18446744073709551615
          else parseUint16 (n * 16 + d) cs)"

definition ParseInt16 :: "string \<Rightarrow> int" where
  "ParseInt16 s =
     (if s = [] then 0
      else
        let neg = (hd s = CHR ''-'');
            digits = (if hd s = CHR ''+'' \<or> hd s = CHR ''-'' then tl s else s)
        in if digits = [] then 0
           else case parseUint16 0 digits of
                  None \<Rightarrow> 0
                | Some un \<Rightarrow>
                    if \<not> neg \<and> 9223372036854775808 \<le> un then 9223372036854775807
                    else if neg \<and> 9223372036854775808 < un then - 9223372036854775808
                    else if neg then - un else un)"

text \<open>The verb \<^verbatim>\<open>%d\<close> of \<^verbatim>\<open>fmt.Fprintf\<close>.\<close>

fun natDigits :: "nat \<Rightarrow> string" where
  "natDigits n =
     (if n < 10 then [char_of (48 + n)] else natDigits (n div 10) @ [char_of (48 + n mod 10)])"

declare natDigits.simps [simp del]

definition fmtInt :: "int \<Rightarrow> string" where
  "fmtInt i = (if i < 0 then CHR ''-'' # natDigits (nat (- i)) else natDigits (nat i))"

text \<open>
  \<^verbatim>\<open>type Filter struct { VendorNames []string; VendorRegex *regexp.Regexp; OUIs []string }\<close>;
  the compiled expression is its \<^verbatim>\<open>MatchString\<close>.
\<close>

record Filter =
  VendorNames :: "string list"
  VendorRegex :: "(string \<Rightarrow> bool) option"
  OUIs :: "string list"

text \<open>\<^verbatim>\<open>type entry struct { OUI string; VendorID int; Vendor string }\<close>\<close>

record entry =
  OUI :: string
  VendorID :: int
  Vendor :: string

text \<open>The sets \<^verbatim>\<open>vendorSet\<close> and \<^verbatim>\<open>ouiSet\<close> that \<^verbatim>\<open>buildFromCSV\<close> fills from the filter.\<close>

definition vendorSet :: "Filter \<Rightarrow> string list" where
  "vendorSet filt = filter (\<lambda>v. v \<noteq> []) (map (\<lambda>v. simplifyName (TrimSpace v)) (VendorNames filt))"

definition ouiSet :: "(string \<Rightarrow> string) \<Rightarrow> Filter \<Rightarrow> string list" where
  "ouiSet U filt =
     map (take 6) (filter (\<lambda>x. 6 \<le> length x)
       (map (\<lambda>x. macCleaner (ToLower U (TrimSpace x))) (OUIs filt)))"

definition allowVendor :: "Filter option \<Rightarrow> string \<Rightarrow> bool" where
  "allowVendor filt v =
     (case filt of
        None \<Rightarrow> True
      | Some f \<Rightarrow>
          let sv = simplifyName v
          in if vendorSet f \<noteq> [] \<and> sv \<notin> set (vendorSet f) then False
             else (case VendorRegex f of
                     Some matchString \<Rightarrow> if \<not> matchString sv then False else True
                   | None \<Rightarrow> True))"

definition allowOUI :: "(string \<Rightarrow> string) \<Rightarrow> Filter option \<Rightarrow> string \<Rightarrow> bool" where
  "allowOUI U filt oui =
     (case filt of
        None \<Rightarrow> True
      | Some f \<Rightarrow> if ouiSet U f = [] then True else ToLower U oui \<in> set (ouiSet U f))"

text \<open>
  The variables of the loop of \<^verbatim>\<open>buildFromCSV\<close>: the maps \<^verbatim>\<open>ouiMap\<close> and
  \<^verbatim>\<open>vendorMap\<close>, the slices \<^verbatim>\<open>entries\<close> and \<^verbatim>\<open>vendors\<close>, and the counter \<^verbatim>\<open>id\<close>.
\<close>

record build_state =
  ouiMap :: "string \<rightharpoonup> string"
  vendorMap :: "string \<rightharpoonup> int"
  entriesAcc :: "entry list"
  vendorsAcc :: "string list"
  nextID :: int

definition initState :: build_state where
  "initState = \<lparr>ouiMap = Map.empty, vendorMap = Map.empty, entriesAcc = [], vendorsAcc = [], nextID = 0\<rparr>"

text \<open>
  The part of the loop body before the duplicate check: the OUI and the simplified
  vendor name of a record that has three fields and passes the filter.
\<close>

definition candidate :: "(string \<Rightarrow> string) \<Rightarrow> Filter option \<Rightarrow> string list \<Rightarrow> (string \<times> string) option" where
  "candidate U filt rec =
     (if length rec < 3 then None
      else
        let oui = ToLower U (TrimSpace (rec ! 1))
        in if \<not> allowOUI U filt oui then None
           else
             let v = filter (\<lambda>c. c \<noteq> CHR 0x22) (TrimSpace (rec ! 2))
             in if \<not> allowVendor filt v then None
                else Some (oui, simplifyName v))"

text \<open>The rest of the loop body.\<close>

definition register :: "build_state \<Rightarrow> string \<times> string \<Rightarrow> build_state" where
  "register st ov =
     (case ov of (oui, v) \<Rightarrow>
        if ouiMap st oui \<noteq> None then st
        else
          let st1 = st\<lparr>ouiMap := (ouiMap st)(oui \<mapsto> v)\<rparr>;
              st2 = (if vendorMap st1 v = None
                     then st1\<lparr>vendorsAcc := vendorsAcc st1 @ [v],
                              vendorMap := (vendorMap st1)(v \<mapsto> nextID st1),
                              nextID := nextID st1 + 1\<rparr>
                     else st1);
              vid = (case vendorMap st2 v of Some i \<Rightarrow> i | None \<Rightarrow> 0)
          in st2\<lparr>entriesAcc := entriesAcc st2 @ [\<lparr>OUI = oui, VendorID = vid, Vendor = v\<rparr>]\<rparr>)"

fun buildLoop :: "(string \<Rightarrow> string) \<Rightarrow> Filter option \<Rightarrow> build_state \<Rightarrow> read_result list
    \<Rightarrow> error + build_state" where
  "buildLoop U filt st [] = Inr st"
| "buildLoop U filt st (ReadFailure # rest) = Inl ReadRow"
| "buildLoop U filt st (Record rec # rest) =
     (case candidate U filt rec of
        None \<Rightarrow> buildLoop U filt st rest
      | Some ov \<Rightarrow> buildLoop U filt (register st ov) rest)"

text \<open>
  \<^verbatim>\<open>sort.Slice\<close> of the standard library puts a slice in ascending order of a key and
  is not stable: it returns a permutation of the slice that is sorted, and the order
  it leaves between elements of equal key is its own. A \<open>sorter\<close> is any function that
  does so; both builders take the sort they call as the parameter \<open>P\<close>, so what is
  proved of them holds whatever \<^verbatim>\<open>sort.Slice\<close> does with equal keys.
\<close>

typedef sorter = "{S :: (entry \<Rightarrow> int) \<Rightarrow> entry list \<Rightarrow> entry list.
    \<forall>k xs. mset (S k xs) = mset xs \<and> sorted (map k (S k xs))}"
  by (rule exI [of _ sort_key]) simp

setup_lifting type_definition_sorter

lift_definition sortSlice :: "sorter \<Rightarrow> (entry \<Rightarrow> int) \<Rightarrow> entry list \<Rightarrow> entry list"
  is "\<lambda>S. S" .

text \<open>One sorter, the stable insertion sort, to run the builders with.\<close>

lift_definition stableSort :: sorter is sort_key
  by simp

text \<open>The header, the loop and the sort: the entries table and the vendor table.\<close>

definition buildTables :: "(string \<Rightarrow> string) \<Rightarrow> sorter \<Rightarrow> read_result list \<Rightarrow> Filter option
    \<Rightarrow> error + entry list \<times> string list" where
  "buildTables U P csv filt =
     (case csv of
        [] \<Rightarrow> Inl EmptyCSV
      | ReadFailure # rows \<Rightarrow> Inl ReadHeader
      | Record header # rows \<Rightarrow>
          (case buildLoop U filt initState rows of
             Inl e \<Rightarrow> Inl e
           | Inr st \<Rightarrow> Inr (sortSlice P (\<lambda>e. ParseInt16 (OUI e)) (entriesAcc st), vendorsAcc st)))"

text \<open>The three files \<^verbatim>\<open>buildFromCSV\<close> writes.\<close>

record dataset =
  entriesFile :: string
  vendorsFile :: string
  indexFile :: bytes

definition buildFromCSV :: "(string \<Rightarrow> string) \<Rightarrow> sorter \<Rightarrow> read_result list \<Rightarrow> Filter option
    \<Rightarrow> error + dataset" where
  "buildFromCSV U P csv filt =
     (case buildTables U P csv filt of
        Inl e \<Rightarrow> Inl e
      | Inr (es, vs) \<Rightarrow>
          let ef = concat (map (\<lambda>e. OUI e @ '','' @ fmtInt (VendorID e) @ [LF]) es);
              vf = concat (map (\<lambda>v. v @ [LF]) vs)
          in case createIndex vf of
               (ix, Some e) \<Rightarrow> Inl CreateIndexFailed
             | (ix, None) \<Rightarrow> Inr \<lparr>entriesFile = ef, vendorsFile = vf, indexFile = ix\<rparr>)"

subsection \<open>The dataset builder of the command \<^verbatim>\<open>update_data\<close>\<close>

text \<open>
  \<^verbatim>\<open>type filter struct { vendorSet, vendorRegex, ouiSet }\<close> of the command, with its
  methods \<^verbatim>\<open>allowVendor\<close> and \<^verbatim>\<open>allowOUI\<close>; a nil filter allows everything.
\<close>

record cmd_filter =
  vendorSet_f :: "string list"
  vendorRegex_f :: "(string \<Rightarrow> bool) option"
  ouiSet_f :: "string list"

definition allowVendor_cmd :: "cmd_filter option \<Rightarrow> string \<Rightarrow> bool" where
  "allowVendor_cmd flt name =
     (case flt of
        None \<Rightarrow> True
      | Some f \<Rightarrow>
          let s = simplifyName_cmd (TrimSpace (filter (\<lambda>c. c \<noteq> CHR 0x22) name))
          in if vendorSet_f f \<noteq> [] \<and> s \<notin> set (vendorSet_f f) then False
             else (case vendorRegex_f f of
                     Some matchString \<Rightarrow> if \<not> matchString s then False else True
                   | None \<Rightarrow> True))"

definition allowOUI_cmd :: "(string \<Rightarrow> string) \<Rightarrow> cmd_filter option \<Rightarrow> string \<Rightarrow> bool" where
  "allowOUI_cmd U flt oui =
     (case flt of
        None \<Rightarrow> True
      | Some f \<Rightarrow> if ouiSet_f f = [] then True else ToLower U oui \<in> set (ouiSet_f f))"

text \<open>
  The loop body of \<^verbatim>\<open>newTemplateData\<close> before the duplicate check. It indexes
  \<^verbatim>\<open>record[1]\<close> and \<^verbatim>\<open>record[2]\<close> without testing the length of the record, which
  panics on a record that is too short.
\<close>

definition candidate_cmd :: "(string \<Rightarrow> string) \<Rightarrow> cmd_filter option \<Rightarrow> string list
    \<Rightarrow> (string \<times> string) option outcome" where
  "candidate_cmd U flt record =
     (if length record < 2 then Panic
      else
        let oui = ToLower U (record ! 1)
        in if flt \<noteq> None \<and> \<not> allowOUI_cmd U flt oui then Return None
           else if length record < 3 then Panic
           else
             let v = simplifyName_cmd (filter (\<lambda>c. c \<noteq> CHR 0x22) (TrimSpace (record ! 2)))
             in if flt \<noteq> None \<and> \<not> allowVendor_cmd flt v then Return None
                else Return (Some (oui, v)))"

text \<open>The loop; an error of the CSV reader panics.\<close>

fun templateLoop :: "(string \<Rightarrow> string) \<Rightarrow> cmd_filter option \<Rightarrow> build_state \<Rightarrow> read_result list
    \<Rightarrow> build_state outcome" where
  "templateLoop U flt st [] = Return st"
| "templateLoop U flt st (ReadFailure # rest) = Panic"
| "templateLoop U flt st (Record record # rest) =
     (case candidate_cmd U flt record of
        Panic \<Rightarrow> Panic
      | Return None \<Rightarrow> templateLoop U flt st rest
      | Return (Some ov) \<Rightarrow> templateLoop U flt (register st ov) rest)"

text \<open>
  Whether \<^verbatim>\<open>strconv.ParseInt(s, 16, 64)\<close> returns an error: \<^verbatim>\<open>OUI.Int\<close> panics on it,
  and the sort calls \<^verbatim>\<open>OUI.Int\<close> on every entry as soon as there are two.
\<close>

definition ParseInt16_fails :: "string \<Rightarrow> bool" where
  "ParseInt16_fails s =
     (if s = [] then True
      else
        let neg = (hd s = CHR ''-'');
            digits = (if hd s = CHR ''+'' \<or> hd s = CHR ''-'' then tl s else s)
        in if digits = [] then True
           else case parseUint16 0 digits of
                  None \<Rightarrow> True
                | Some un \<Rightarrow>
                    if neg then 9223372036854775808 < un else 9223372036854775808 \<le> un)"

text \<open>\<^verbatim>\<open>newTemplateData\<close>: the entries and the vendors of the template data.\<close>

definition newTemplateData :: "(string \<Rightarrow> string) \<Rightarrow> sorter \<Rightarrow> read_result list
    \<Rightarrow> cmd_filter option \<Rightarrow> (entry list \<times> string list) outcome" where
  "newTemplateData U P csv flt =
     (case csv of
        [] \<Rightarrow> Panic
      | ReadFailure # rows \<Rightarrow> Panic
      | Record header # rows \<Rightarrow>
          (case templateLoop U flt initState rows of
             Panic \<Rightarrow> Panic
           | Return st \<Rightarrow>
               if 2 \<le> length (entriesAcc st)
                  \<and> list_ex (\<lambda>e. ParseInt16_fails (OUI e)) (entriesAcc st) then Panic
               else Return (sortSlice P (\<lambda>e. ParseInt16 (OUI e)) (entriesAcc st), vendorsAcc st)))"

subsection \<open>Notions the statements use\<close>

text \<open>A valid OUI: six hexadecimal digits, in either case.\<close>

definition isHexDigit :: "char \<Rightarrow> bool" where
  "isHexDigit c = (c \<in> set ''0123456789abcdefABCDEF'')"

definition validOUI :: "string \<Rightarrow> bool" where
  "validOUI x = (length x = 6 \<and> list_all isHexDigit x)"

text \<open>
  The ways of writing an OUI in a query, as the specification lists them: the
  separators are the colon, the hyphen, the full stop and the space, and the letters
  of a hexadecimal digit count in either case. \<open>writesOUI s x\<close> says that \<open>s\<close> is \<open>x\<close>
  with separators put in anywhere and letters in any case.
\<close>

definition isSeparator :: "char \<Rightarrow> bool" where
  "isSeparator c = (c = CHR '':'' \<or> c = CHR ''-'' \<or> c = CHR ''.'' \<or> c = CHR '' '')"

definition upperHex :: "char \<Rightarrow> char" where
  "upperHex c =
     (if c = CHR ''a'' then CHR ''A'' else if c = CHR ''b'' then CHR ''B''
      else if c = CHR ''c'' then CHR ''C'' else if c = CHR ''d'' then CHR ''D''
      else if c = CHR ''e'' then CHR ''E'' else if c = CHR ''f'' then CHR ''F''
      else c)"

definition writesOUI :: "string \<Rightarrow> string \<Rightarrow> bool" where
  "writesOUI s x = (map upperHex (filter (\<lambda>c. \<not> isSeparator c) s) = map upperHex x)"

text \<open>
  The regression scenario of \<^verbatim>\<open>TestSearchVendor_NormalizationAndTrim\<close>: the vendors file
  holds the lines \<^verbatim>\<open>Vendor One\<close> and \<^verbatim>\<open>Vendor Two\<close>, the index is the one
  \<^verbatim>\<open>createIndex\<close> writes for it, and the entries file is \<open>entriesText\<close>. The result
  lists the answers to the three queries, and is empty when the dataset does not load.
\<close>

definition scenarioVendors :: string where
  "scenarioVendors = ''Vendor One'' @ [LF] @ ''Vendor Two'' @ [LF]"

definition scenario :: "(string \<Rightarrow> string) \<Rightarrow> string \<Rightarrow> (string \<times> bool) outcome list" where
  "scenario U entriesText =
     (case csvPlain entriesText of
        None \<Rightarrow> []
      | Some rows \<Rightarrow>
          (case Open rows scenarioVendors (fst (createIndex scenarioVendors)) of
             Inl e \<Rightarrow> []
           | Inr db \<Rightarrow>
               [Lookup U db ''AB:CD:EF:12:34:56'', Lookup U db ''abcd12'', Lookup U db ''123456'']))"

text \<open>
  What the command \<^verbatim>\<open>pg-oui\<close> does with one argument: open the dataset, then look
  the argument up.
\<close>

definition openAndLookup :: "(string \<Rightarrow> string) \<Rightarrow> read_result list \<Rightarrow> string \<Rightarrow> bytes \<Rightarrow> string
    \<Rightarrow> error + (string \<times> bool) outcome" where
  "openAndLookup U entriesRows vendorsBytes indexBytes q =
     (case Open entriesRows vendorsBytes indexBytes of
        Inl e \<Rightarrow> Inl e
      | Inr db \<Rightarrow> Inr (Lookup U db q))"

text \<open>
  How many of the three patterns removed something in one call of \<^verbatim>\<open>simplifyName\<close>.
\<close>

definition strippedClasses :: "string \<Rightarrow> nat" where
  "strippedClasses name =
     (let b0 = name;
          b1 = ReplaceAll llcRegex b0;
          b2 = ReplaceAll coRegex b1;
          b3 = ReplaceAll gmbhRegex b2
      in (if b1 \<noteq> b0 then 1 else 0) + (if b2 \<noteq> b1 then 1 else 0) + (if b3 \<noteq> b2 then 1 else 0))"

text \<open>
  The candidates of a registry, in order: for each data row that has three fields and
  passes the filter, its OUI and simplified vendor name. \<^const>\<open>map_of\<close> on this list
  gives, for an OUI, the vendor name of the first row that carries it.
\<close>

definition candidates :: "(string \<Rightarrow> string) \<Rightarrow> Filter option \<Rightarrow> read_result list
    \<Rightarrow> (string \<times> string) list" where
  "candidates U filt rows =
     concat (map (\<lambda>r. case r of
                         Record rec \<Rightarrow> (case candidate U filt rec of Some ov \<Rightarrow> [ov] | None \<Rightarrow> [])
                       | ReadFailure \<Rightarrow> []) rows)"

text \<open>
  First occurrence wins: the entries hold each OUI of the candidates once, with the
  vendor name of its first candidate, and the ID of an entry is the position of its
  vendor name in the vendor table, which holds each name in use once.
\<close>

definition firstWins :: "(string \<times> string) list \<Rightarrow> entry list \<Rightarrow> string list \<Rightarrow> bool" where
  "firstWins cs es vs \<longleftrightarrow>
     distinct (map OUI es) \<and> OUI ` set es = fst ` set cs
     \<and> distinct vs \<and> set vs = Vendor ` set es
     \<and> list_all (\<lambda>e. map_of cs (OUI e) = Some (Vendor e)
                      \<and> 0 \<le> VendorID e \<and> nat (VendorID e) < length vs
                      \<and> vs ! nat (VendorID e) = Vendor e) es"

text \<open>The candidates of a registry for the builder of the command.\<close>

definition candidates_cmd :: "(string \<Rightarrow> string) \<Rightarrow> cmd_filter option \<Rightarrow> read_result list
    \<Rightarrow> (string \<times> string) list" where
  "candidates_cmd U flt rows =
     concat (map (\<lambda>r. case r of
                         Record record \<Rightarrow>
                           (case candidate_cmd U flt record of Return (Some ov) \<Rightarrow> [ov] | _ \<Rightarrow> [])
                       | ReadFailure \<Rightarrow> []) rows)"

text \<open>What the loop of the builder keeps true, \<open>cs\<close> being the candidates seen so far.\<close>

definition buildInv :: "build_state \<Rightarrow> (string \<times> string) list \<Rightarrow> bool" where
  "buildInv st cs \<longleftrightarrow>
     ouiMap st = map_of cs
     \<and> nextID st = int (length (vendorsAcc st))
     \<and> (\<forall>v i. vendorMap st v = Some i
            \<longleftrightarrow> 0 \<le> i \<and> nat i < length (vendorsAcc st) \<and> vendorsAcc st ! nat i = v)
     \<and> list_all (\<lambda>e. vendorMap st (Vendor e) = Some (VendorID e)) (entriesAcc st)
     \<and> firstWins cs (entriesAcc st) (vendorsAcc st)"

text \<open>
  Build a dataset from a registry, open the files written and look a query up. The
  entries file is read back by the CSV reader; the result is \<open>None\<close> when its text is
  outside what \<^const>\<open>csvPlain\<close> covers.
\<close>

definition buildAndLookup :: "(string \<Rightarrow> string) \<Rightarrow> sorter \<Rightarrow> read_result list \<Rightarrow> Filter option
    \<Rightarrow> string \<Rightarrow> (error + (string \<times> bool) outcome) option" where
  "buildAndLookup U P csv filt q =
     (case buildFromCSV U P csv filt of
        Inl e \<Rightarrow> Some (Inl e)
      | Inr d \<Rightarrow>
          (case csvPlain (entriesFile d) of
             None \<Rightarrow> None
           | Some rows \<Rightarrow> Some (openAndLookup U rows (vendorsFile d) (indexFile d) q)))"

text \<open>The file that holds the given lines, each ended by a line feed.\<close>

definition fileOfLines :: "string list \<Rightarrow> string" where
  "fileOfLines ls = concat (map (\<lambda>l. l @ [LF]) ls)"

section \<open>Properties of the lookup engine\<close>

subsection \<open>Bytes and case\<close>

lemma byte_char_of: "n < 256 \<Longrightarrow> byte (char_of n) = n"
  by (simp add: byte_def)

lemma lower_upper: "lowerASCII (upperASCII c) = lowerASCII c"
proof (cases "byte (CHR ''a'') \<le> byte c \<and> byte c \<le> byte (CHR ''z'')")
  case True
  define n where "n = byte c"
  from True have r: "97 \<le> n" "n \<le> 122" by (simp_all add: n_def byte_def)
  have c: "c = char_of n" by (simp add: n_def byte_def)
  from r have up: "upperASCII c = char_of (n - 32)"
    by (simp add: upperASCII_def n_def [symmetric]) (simp add: byte_def)
  from r have b: "byte (char_of (n - 32)) = n - 32" by (simp add: byte_char_of)
  from r have lo: "lowerASCII (char_of (n - 32)) = char_of n"
    by (auto simp: lowerASCII_def b byte_def)
  from r have "lowerASCII c = c"
    by (simp add: lowerASCII_def n_def [symmetric]) (simp add: byte_def)
  with up lo c show ?thesis by simp
next
  case False
  then have "upperASCII c = c" unfolding upperASCII_def by (simp only: if_False)
  then show ?thesis by simp
qed

lemma hex_ascii: "isHexDigit c \<Longrightarrow> byte c < 128"
  by (auto simp: isHexDigit_def byte_def)

lemma hex_not_separator: "isHexDigit c \<Longrightarrow> c \<notin> set '':-. ''"
  by (auto simp: isHexDigit_def)

lemma lower_hex_ascii: "isHexDigit (lowerASCII c) \<Longrightarrow> byte c < 128"
proof (cases "byte (CHR ''A'') \<le> byte c \<and> byte c \<le> byte (CHR ''Z'')")
  case True
  then show ?thesis by (simp add: byte_def)
next
  case False
  then have "lowerASCII c = c" unfolding lowerASCII_def by (simp only: if_False)
  then show "isHexDigit (lowerASCII c) \<Longrightarrow> byte c < 128" by (simp add: hex_ascii)
qed

lemma lower_of_hex: "isHexDigit c \<Longrightarrow> isHexDigit (lowerASCII c)"
  unfolding isHexDigit_def by (auto simp: lowerASCII_def byte_def char_of_eq_iff)

lemma upper_of_hex: "isHexDigit c \<Longrightarrow> isHexDigit (upperASCII c)"
  unfolding isHexDigit_def by (auto simp: upperASCII_def byte_def char_of_eq_iff)

lemma macCleaner_hex: "list_all isHexDigit x \<Longrightarrow> macCleaner x = x"
  unfolding macCleaner_def using hex_not_separator by (induction x) auto

lemma macCleaner_append: "macCleaner (s @ t) = macCleaner s @ macCleaner t"
  by (simp add: macCleaner_def)

text \<open>A string that lower-cases to the lower-casing of hexadecimal digits is ASCII.\<close>

lemma ToLower_same_lower:
  assumes hex: "list_all isHexDigit x" and same: "map lowerASCII y = map lowerASCII x"
  shows "ToLower U y = map lowerASCII x"
proof -
  have "byte c < 128" if "c \<in> set y" for c
  proof -
    from that have "lowerASCII c \<in> set (map lowerASCII y)" by simp
    then have "lowerASCII c \<in> set (map lowerASCII x)" by (simp only: same)
    then obtain d where "d \<in> set x" "lowerASCII c = lowerASCII d" by auto
    with hex have "isHexDigit (lowerASCII c)" by (simp add: list_all_iff lower_of_hex)
    then show ?thesis by (rule lower_hex_ascii)
  qed
  then have "isASCII y" by (simp add: isASCII_def list_all_iff)
  with same show ?thesis by (simp add: ToLower_def)
qed

subsection \<open>The key a query is looked up under\<close>

lemma Lookup_short: "length (macCleaner s) < 6 \<Longrightarrow> Lookup U db s = Return ('''', False)"
  by (simp add: Lookup_def)

lemma Lookup_key:
  assumes len: "6 \<le> length (macCleaner s)"
  shows "Lookup U db s =
     (case entries db (ToLower U (take 6 (macCleaner s))) of
        None \<Rightarrow> Return ('''', False)
      | Some ident \<Rightarrow>
          if sint ident \<le> 0 then Return ('''', False)
          else (case vendorByID db ident of
                  Panic \<Rightarrow> Panic
                | Return (Inl e) \<Rightarrow> Return ('''', False)
                | Return (Inr v) \<Rightarrow> Return (v, True)))"
proof -
  from len have "(if 6 < length (macCleaner s) then take 6 (macCleaner s) else macCleaner s)
               = take 6 (macCleaner s)" by simp
  with len show ?thesis
    by (simp add: Lookup_def Let_def del: take_all_iff)
qed

lemma Lookup_same_key:
  assumes "6 \<le> length (macCleaner s)" and "6 \<le> length (macCleaner s')"
    and "ToLower U (take 6 (macCleaner s)) = ToLower U (take 6 (macCleaner s'))"
  shows "Lookup U db s = Lookup U db s'"
  by (simp only: Lookup_key [OF assms(1)] Lookup_key [OF assms(2)] assms(3))

lemma vendorByID_past:
  assumes "0 < sint v" and "int (length (offsets db)) \<le> sint v"
  shows "vendorByID db v = Return (Inl IdOutOfRange)"
  using assms by (simp add: vendorByID_def Let_def)

subsection \<open>Normalization of the query\<close>

text \<open>
  A query whose cleaned form is \<open>x\<close> up to the case of its letters, followed by any
  text, is looked up under the key of \<open>x\<close>.
\<close>

lemma Lookup_cleaned_same:
  assumes valid: "validOUI x"
    and same: "map lowerASCII (macCleaner s) = map lowerASCII x"
  shows "Lookup U db (s @ t) = Lookup U db x"
proof -
  from valid have len: "length x = 6" and hex: "list_all isHexDigit x"
    by (simp_all add: validOUI_def)
  from same have "length (map lowerASCII (macCleaner s)) = length (map lowerASCII x)"
    by (rule arg_cong)
  with len have slen: "length (macCleaner s) = 6" by simp
  have keyx: "ToLower U (take 6 (macCleaner x)) = map lowerASCII x"
    using hex len by (simp add: macCleaner_hex ToLower_same_lower)
  have "take 6 (macCleaner (s @ t)) = macCleaner s"
    using slen by (simp add: macCleaner_append)
  then have keys: "ToLower U (take 6 (macCleaner (s @ t))) = map lowerASCII x"
    using hex same by (simp add: ToLower_same_lower)
  have s6: "6 \<le> length (macCleaner (s @ t))" using slen by (simp add: macCleaner_append)
  have x6: "6 \<le> length (macCleaner x)" using hex len by (simp add: macCleaner_hex)
  show "Lookup U db (s @ t) = Lookup U db x"
    by (rule Lookup_same_key [OF s6 x6]) (simp only: keys keyx)
qed

text \<open>
  \<^verbatim>\<open>macCleaner\<close> removes the four separators and nothing else, and \<^verbatim>\<open>strings.ToLower\<close>
  identifies the two cases of a hexadecimal digit.
\<close>

lemma macCleaner_removes_separators:
  "macCleaner s = filter (\<lambda>c. \<not> isSeparator c) s"
  unfolding macCleaner_def by (induction s) (auto simp: isSeparator_def)

lemma upperHex_cases:
  "upperHex a = upperHex b \<Longrightarrow>
     a = b \<or> (a, b) \<in> set (zip ''abcdefABCDEF'' ''ABCDEFabcdef'')"
  by (auto simp: upperHex_def split: if_splits)

lemma upperHex_same_lower:
  assumes "upperHex a = upperHex b"
  shows "lowerASCII a = lowerASCII b"
proof -
  have "\<forall>p \<in> set (zip ''abcdefABCDEF'' ''ABCDEFabcdef''). lowerASCII (fst p) = lowerASCII (snd p)"
    by code_simp
  with upperHex_cases [OF assms] show ?thesis by fastforce
qed

lemma writes_same_lower:
  "map upperHex ys = map upperHex x \<Longrightarrow> map lowerASCII ys = map lowerASCII x"
proof (induction x arbitrary: ys)
  case Nil
  then show ?case by simp
next
  case (Cons b x)
  then obtain a ys' where ys: "ys = a # ys'" by (cases ys) auto
  with Cons.prems have hd: "upperHex a = upperHex b" and tl: "map upperHex ys' = map upperHex x"
    by simp_all
  from hd have "lowerASCII a = lowerASCII b" by (rule upperHex_same_lower)
  with Cons.IH [OF tl] ys show ?case by simp
qed

lemma upperHex_other: "c \<notin> set ''abcdef'' \<Longrightarrow> upperHex c = c"
  by (simp add: upperHex_def)

lemma upperHex_letter: "c \<in> set ''abcdef'' \<Longrightarrow> upperHex c \<in> set ''ABCDEF''"
  by (auto simp: upperHex_def)

lemma upperHex_idem: "upperHex (upperHex c) = upperHex c"
proof (cases "c \<in> set ''abcdef''")
  case True
  then have "upperHex c \<in> set ''ABCDEF''" by (rule upperHex_letter)
  then have "upperHex c \<notin> set ''abcdef''" by auto
  then show ?thesis by (rule upperHex_other)
next
  case False
  then have "upperHex c = c" by (rule upperHex_other)
  then show ?thesis by simp
qed

lemma upperHex_of_hex: "isHexDigit c \<Longrightarrow> \<not> isSeparator (upperHex c)"
  by (auto simp: isHexDigit_def isSeparator_def upperHex_def)

lemma hex_not_isSeparator: "isHexDigit c \<Longrightarrow> \<not> isSeparator c"
  by (auto simp: isHexDigit_def isSeparator_def)

lemma writesOUI_self: "list_all isHexDigit x \<Longrightarrow> writesOUI x x"
  unfolding writesOUI_def by (induction x) (simp_all add: hex_not_isSeparator)

lemma writesOUI_upper: "list_all isHexDigit x \<Longrightarrow> writesOUI (map upperHex x) x"
  unfolding writesOUI_def by (induction x) (simp_all add: upperHex_of_hex upperHex_idem)

lemma Lookup_writesOUI:
  assumes "validOUI x" and "writesOUI s x"
  shows "Lookup U db (s @ t) = Lookup U db x"
proof -
  from assms(2) have "map upperHex (macCleaner s) = map upperHex x"
    by (simp only: writesOUI_def macCleaner_removes_separators)
  then have "map lowerASCII (macCleaner s) = map lowerASCII x" by (rule writes_same_lower)
  with assms(1) show ?thesis by (rule Lookup_cleaned_same)
qed

text \<open>
  C5. Normalization invariance of lookup: for a valid OUI \<open>x\<close> (six hexadecimal digits),
  any loaded DB and any text \<open>t\<close>, the lookups of \<open>x\<close>, of \<open>x\<close> in upper case, of \<open>x\<close>
  followed by \<open>t\<close>, and of any \<open>s\<close> followed by \<open>t\<close> give the same answer, where \<open>s\<close> is
  \<open>x\<close> with the separators \<^verbatim>\<open>:\<close>, \<^verbatim>\<open>-\<close>, \<^verbatim>\<open>.\<close> and space put in anywhere and its letters in
  any case. The over-long query is cut to its first six characters after the
  separators are removed.
\<close>

theorem lookup_normalization_invariant:
  assumes valid: "validOUI x"
    and writes: "writesOUI s x"
  shows "Lookup U db (s @ t) = Lookup U db x
       \<and> Lookup U db (map upperHex x) = Lookup U db x
       \<and> Lookup U db (x @ t) = Lookup U db x"
proof -
  from valid have hex: "list_all isHexDigit x" by (simp add: validOUI_def)
  have "Lookup U db (s @ t) = Lookup U db x"
    using valid writes by (rule Lookup_writesOUI)
  moreover have "Lookup U db (map upperHex x) = Lookup U db x"
    using Lookup_writesOUI [OF valid writesOUI_upper [OF hex], of U db "[]"]
    by (simp only: append_Nil2)
  moreover have "Lookup U db (x @ t) = Lookup U db x"
    using valid writesOUI_self [OF hex] by (rule Lookup_writesOUI)
  ultimately show ?thesis by (intro conjI)
qed

theorem lookup_normalization_invariant_witness:
  "validOUI ''a1b2c3''
   \<and> writesOUI ''A1:b2-C.3 '' ''a1b2c3''
   \<and> Lookup (\<lambda>s. s) \<lparr>entries = [''a1b2c3'' \<mapsto> 1], vendors = ''Acme'' @ [LF], offsets = [0, 5]\<rparr>
        ''a1b2c3'' = Return (''Acme'', True)
   \<and> Lookup (\<lambda>s. s) \<lparr>entries = [''a1b2c3'' \<mapsto> 1], vendors = ''Acme'' @ [LF], offsets = [0, 5]\<rparr>
        (''A1:b2-C.3 '' @ ''45.67 89'') = Return (''Acme'', True)
   \<and> Lookup (\<lambda>s. s) \<lparr>entries = [''a1b2c3'' \<mapsto> 1], vendors = ''Acme'' @ [LF], offsets = [0, 5]\<rparr>
        (map upperHex ''a1b2c3'') = Return (''Acme'', True)
   \<and> Lookup (\<lambda>s. s) \<lparr>entries = [''a1b2c3'' \<mapsto> 1], vendors = ''Acme'' @ [LF], offsets = [0, 5]\<rparr>
        (''a1b2c3'' @ ''45.67 89'') = Return (''Acme'', True)
   \<and> map upperHex ''a1b2c3'' = ''A1B2C3''"
proof -
  have v: "validOUI ''a1b2c3''" by code_simp
  have w: "writesOUI ''A1:b2-C.3 '' ''a1b2c3''" by code_simp
  have r: "Lookup (\<lambda>s. s) \<lparr>entries = [''a1b2c3'' \<mapsto> 1], vendors = ''Acme'' @ [LF], offsets = [0, 5]\<rparr>
        ''a1b2c3'' = Return (''Acme'', True)" by code_simp
  have u: "map upperHex ''a1b2c3'' = ''A1B2C3''" by code_simp
  from v w r u lookup_normalization_invariant [OF v w, of "\<lambda>s. s"
      "\<lparr>entries = [''a1b2c3'' \<mapsto> 1], vendors = ''Acme'' @ [LF], offsets = [0, 5]\<rparr>" "''45.67 89''"]
  show ?thesis by (simp only: simp_thms)
qed

subsection \<open>Queries that are not found\<close>

text \<open>
  C6. Under-length rejection and totality: a query with fewer than six characters left
  after the separators are removed gets \<open>('''', False)\<close>, and so does every query whose
  key is not in the entries map; in both cases \<open>Lookup\<close> returns (it does not panic)
  and the result is the not-found pair, never an error or a partial match.
\<close>

theorem lookup_short_or_unknown_not_found:
  assumes "length (macCleaner s) < 6 \<or> entries db (ToLower U (take 6 (macCleaner s))) = None"
  shows "Lookup U db s = Return ('''', False)"
proof (cases "length (macCleaner s) < 6")
  case True
  then show ?thesis by (rule Lookup_short)
next
  case False
  with assms have "entries db (ToLower U (take 6 (macCleaner s))) = None" by simp
  moreover from False have "6 \<le> length (macCleaner s)" by simp
  ultimately show ?thesis by (simp add: Lookup_key)
qed

theorem lookup_short_or_unknown_not_found_witness:
  "length (macCleaner ''ab:cd:e'') < 6
   \<and> Lookup (\<lambda>s. s) \<lparr>entries = [''abcdef'' \<mapsto> 1], vendors = ''Acme'' @ [LF], offsets = [0, 5]\<rparr>
        ''ab:cd:e'' = Return ('''', False)"
proof -
  have h: "length (macCleaner ''ab:cd:e'') < 6" by code_simp
  then have "length (macCleaner ''ab:cd:e'') < 6
     \<or> entries \<lparr>entries = [''abcdef'' \<mapsto> 1], vendors = ''Acme'' @ [LF], offsets = [0, 5]\<rparr>
          (ToLower (\<lambda>s. s) (take 6 (macCleaner ''ab:cd:e''))) = None" by (rule disjI1)
  from h lookup_short_or_unknown_not_found [OF this] show ?thesis by (rule conjI)
qed

text \<open>
  C10. IDs past the offset table get no fallback: when the entries map sends the key of
  the query to a vendor ID \<open>v\<close> that is at least the number of offsets loaded,
  \<open>Lookup\<close> returns \<open>('''', False)\<close>, whatever the vendors buffer holds.
\<close>

theorem lookup_id_past_offsets_not_found:
  assumes "entries db (ToLower U (take 6 (macCleaner s))) = Some v"
    and "int (length (offsets db)) \<le> sint v"
  shows "Lookup U db s = Return ('''', False)"
proof (cases "length (macCleaner s) < 6")
  case True
  then show ?thesis by (rule Lookup_short)
next
  case False
  then have len: "6 \<le> length (macCleaner s)" by simp
  show ?thesis
  proof (cases "sint v \<le> 0")
    case True
    with assms(1) len show ?thesis by (simp add: Lookup_key)
  next
    case False
    then have "vendorByID db v = Return (Inl IdOutOfRange)"
      using assms(2) by (simp add: vendorByID_past)
    with assms(1) len False show ?thesis by (simp add: Lookup_key)
  qed
qed

theorem lookup_id_past_offsets_not_found_witness:
  "entries \<lparr>entries = [''abcdef'' \<mapsto> 2], vendors = ''Acme'' @ [LF] @ ''Bolt'' @ [LF], offsets = [0, 5]\<rparr>
     (ToLower (\<lambda>s. s) (take 6 (macCleaner ''AB-CD-EF''))) = Some 2
   \<and> int (length (offsets \<lparr>entries = [''abcdef'' \<mapsto> 2], vendors = ''Acme'' @ [LF] @ ''Bolt'' @ [LF], offsets = [0, 5]\<rparr>))
       \<le> sint (2 :: int64)
   \<and> Lookup (\<lambda>s. s) \<lparr>entries = [''abcdef'' \<mapsto> 2], vendors = ''Acme'' @ [LF] @ ''Bolt'' @ [LF], offsets = [0, 5]\<rparr>
        ''AB-CD-EF'' = Return ('''', False)"
proof -
  have a: "entries \<lparr>entries = [''abcdef'' \<mapsto> 2], vendors = ''Acme'' @ [LF] @ ''Bolt'' @ [LF], offsets = [0, 5]\<rparr>
     (ToLower (\<lambda>s. s) (take 6 (macCleaner ''AB-CD-EF''))) = Some 2" by code_simp
  have b: "int (length (offsets \<lparr>entries = [''abcdef'' \<mapsto> 2], vendors = ''Acme'' @ [LF] @ ''Bolt'' @ [LF], offsets = [0, 5]\<rparr>))
       \<le> sint (2 :: int64)" by simp
  from a b lookup_id_past_offsets_not_found [OF a b] show ?thesis by blast
qed

subsection \<open>The regression scenario\<close>

text \<open>
  C2. Concrete scenario: with the vendors file holding the lines \<^verbatim>\<open>Vendor One\<close> and
  \<^verbatim>\<open>Vendor Two\<close>, its offset index, and an entries file with the rows \<^verbatim>\<open>abcdef,1\<close>
  and \<^verbatim>\<open>abcd12,2\<close> (in either order), the dataset loads and the queries
  \<^verbatim>\<open>AB:CD:EF:12:34:56\<close>, \<^verbatim>\<open>abcd12\<close> and \<^verbatim>\<open>123456\<close> are answered
  \<open>(''Vendor One'', True)\<close>, \<open>(''Vendor Two'', True)\<close> and \<open>('''', False)\<close>.
\<close>

theorem concrete_scenario:
  "scenario U (''abcdef,1'' @ [LF] @ ''abcd12,2'' @ [LF])
     = [Return (''Vendor One'', True), Return (''Vendor Two'', True), Return ('''', False)]
   \<and> scenario U (''abcd12,2'' @ [LF] @ ''abcdef,1'' @ [LF])
     = [Return (''Vendor One'', True), Return (''Vendor Two'', True), Return ('''', False)]"
  by code_simp

subsection \<open>Offsets that fail the bounds check\<close>

lemma IndexByte_takeWhile:
  "(case IndexByte b c of Some i \<Rightarrow> take i b | None \<Rightarrow> b) = takeWhile (\<lambda>x. x \<noteq> c) b"
  by (induction b) (auto split: option.splits)

lemma sint_pred: "0 < sint (v :: int64) \<Longrightarrow> sint (v - 1) = sint v - 1"
proof -
  assume pos: "0 < sint v"
  have "sint v < 2 ^ 63" using sint_lt [of v] by simp
  with pos have "signed_take_bit 63 (sint v - 1) = sint v - 1"
    by (simp add: signed_take_bit_int_eq_self_iff)
  then show ?thesis by (simp add: sint_word_diff)
qed

text \<open>For an ID inside the offset table, \<open>vendorByID\<close> reads the two offsets around it.\<close>

lemma vendorByID_valid:
  assumes v: "0 < sint v" "sint v < int (length (offsets db))"
  shows "vendorByID db v =
     (if sint (offsets db ! (nat (sint v) - 1)) < 0
         \<or> sint (offsets db ! nat (sint v)) < sint (offsets db ! (nat (sint v) - 1))
         \<or> int (length (vendors db)) < sint (offsets db ! nat (sint v)) then
        (if int (length (vendors db)) \<le> sint (offsets db ! (nat (sint v) - 1))
           then Return (Inl OffsetOutOfRange)
         else if sint (offsets db ! (nat (sint v) - 1)) < 0 then Panic
         else case IndexByte (drop (nat (sint (offsets db ! (nat (sint v) - 1)))) (vendors db)) LF of
                Some i \<Rightarrow> Return (Inr (TrimRight
                   (take i (drop (nat (sint (offsets db ! (nat (sint v) - 1)))) (vendors db))) [CR, LF]))
              | None \<Rightarrow> Return (Inr (TrimRight
                   (drop (nat (sint (offsets db ! (nat (sint v) - 1)))) (vendors db)) [CR, LF])))
      else Return (Inr (TrimRight
             (take (nat (sint (offsets db ! nat (sint v))) - nat (sint (offsets db ! (nat (sint v) - 1))))
                (drop (nat (sint (offsets db ! (nat (sint v) - 1)))) (vendors db)))
             [CR, LF])))"
proof -
  from v(1) have idx: "sint (v - 1) = sint v - 1" by (rule sint_pred)
  have n1: "nat (sint (v - 1)) = nat (sint v) - 1" by (simp add: idx)
  have n2: "nat (sint v) - 1 + 1 = nat (sint v)" using v(1) by simp
  have c1: "(sint (v - 1) < 0 \<or> int (length (offsets db)) \<le> sint (v - 1 + 1)) = False"
    using v idx by simp
  have c2: "(\<not> nat (sint v) < length (offsets db)) = False"
    using v by simp
  show ?thesis
    unfolding vendorByID_def Let_def c1 n1 c2 n2 if_False by (rule refl)
qed

text \<open>
  When the bounds check fails and \<open>start\<close> is not negative, the lookup reports an error
  if \<open>start\<close> is at or past the end of the vendors buffer, and otherwise the name is
  the text from \<open>start\<close> up to the next line feed or the end of the buffer.
\<close>

lemma vendorByID_fallback:
  assumes v: "0 < sint v" "sint v < int (length (offsets db))"
    and bad: "sint (offsets db ! nat (sint v)) < sint (offsets db ! (nat (sint v) - 1))
              \<or> int (length (vendors db)) < sint (offsets db ! nat (sint v))"
    and start: "0 \<le> sint (offsets db ! (nat (sint v) - 1))"
  shows "vendorByID db v =
           (if int (length (vendors db)) \<le> sint (offsets db ! (nat (sint v) - 1))
            then Return (Inl OffsetOutOfRange)
            else Return (Inr (TrimRight
                   (takeWhile (\<lambda>x. x \<noteq> LF)
                      (drop (nat (sint (offsets db ! (nat (sint v) - 1)))) (vendors db)))
                   [CR, LF])))"
proof -
  have "(case IndexByte b LF of Some i \<Rightarrow> Return (Inr (TrimRight (take i b) [CR, LF]))
          | None \<Rightarrow> Return (Inr (TrimRight b [CR, LF])))
        = (Return (Inr (TrimRight (takeWhile (\<lambda>x. x \<noteq> LF) b) [CR, LF])) :: (error + string) outcome)"
    for b
    unfolding IndexByte_takeWhile [of b LF, symmetric] by (simp split: option.splits)
  with bad start show ?thesis
    by (simp add: vendorByID_valid [OF v] del: One_nat_def)
qed

text \<open>
  \<^verbatim>\<open>Lookup\<close> panics in one case only: the query is known, its ID lies inside the offset
  table, and the offset before it is negative.
\<close>

lemma vendorByID_Panic_iff:
  assumes v: "0 < sint v" "sint v < int (length (offsets db))"
  shows "vendorByID db v = Panic \<longleftrightarrow> sint (offsets db ! (nat (sint v) - 1)) < 0"
proof (cases "sint (offsets db ! (nat (sint v) - 1)) < 0")
  case True
  then have "\<not> int (length (vendors db)) \<le> sint (offsets db ! (nat (sint v) - 1))" by simp
  with True show ?thesis by (simp only: vendorByID_valid [OF v] if_True if_False simp_thms)
next
  case False
  then show ?thesis
    by (simp only: vendorByID_valid [OF v] if_False simp_thms)
       (simp split: option.splits)
qed

lemma Lookup_Panic_iff:
  "Lookup U db s = Panic \<longleftrightarrow>
     6 \<le> length (macCleaner s)
     \<and> (\<exists>v. entries db (ToLower U (take 6 (macCleaner s))) = Some v
            \<and> 0 < sint v \<and> sint v < int (length (offsets db))
            \<and> sint (offsets db ! (nat (sint v) - 1)) < 0)"
proof (cases "length (macCleaner s) < 6")
  case True
  then show ?thesis by (simp add: Lookup_short)
next
  case False
  then have len: "6 \<le> length (macCleaner s)" by simp
  show ?thesis
  proof (cases "entries db (ToLower U (take 6 (macCleaner s)))")
    case None
    with len show ?thesis by (simp add: Lookup_key)
  next
    case (Some v)
    show ?thesis
    proof (cases "0 < sint v \<and> sint v < int (length (offsets db))")
      case True
      then have p: "vendorByID db v = Panic \<longleftrightarrow> sint (offsets db ! (nat (sint v) - 1)) < 0"
        by (simp add: vendorByID_Panic_iff)
      have "Lookup U db s = Panic \<longleftrightarrow> vendorByID db v = Panic"
        using len Some True by (cases "vendorByID db v") (auto simp: Lookup_key split: sum.splits)
      with p len Some True show ?thesis by simp
    next
      case False
      then have "sint v \<le> 0 \<or> (0 < sint v \<and> vendorByID db v = Return (Inl IdOutOfRange))"
        using vendorByID_past [of v db] by auto
      with len Some False show ?thesis by (auto simp: Lookup_key)
    qed
  qed
qed

text \<open>
  C7. Scan fallback on corrupt offsets. The claim fails on the code for a negative
  \<open>start\<close>: the bounds check sends it to the fallback, whose guard tests only
  \<^verbatim>\<open>int(start) >= len(db.vendors)\<close>, and the slice \<^verbatim>\<open>db.vendors[start:]\<close> panics. With an
  index file whose first offset is \<open>-1\<close>, looking up an OUI of vendor 1 does not return.
\<close>

theorem lookup_negative_offset_panics:
  "openAndLookup U [Record [''aabbcc'', ''1'']] (''Acme'' @ [LF]) (le64_bytes (- 1) @ le64_bytes 5)
     ''aabbcc'' = Inr Panic"
  by code_simp

subsection \<open>Rows of the entries file with the same OUI\<close>

lemma loadEntries_append:
  "loadEntries m (xs @ ys) =
     (case loadEntries m xs of Inl e \<Rightarrow> Inl e | Inr m' \<Rightarrow> loadEntries m' ys)"
proof (induction xs arbitrary: m)
  case Nil
  show ?case by simp
next
  case (Cons x xs)
  show ?case
  proof (cases x)
    case (Record rec)
    then show ?thesis
      by (cases "length rec < 2"; cases "atoi (rec ! 1)") (simp_all add: Cons.IH fun_upd_def)
  next
    case ReadFailure
    then show ?thesis by simp
  qed
qed

lemma loadEntries_other:
  "loadEntries m rows = Inr m' \<Longrightarrow>
   \<forall>r. Record r \<in> set rows \<and> 2 \<le> length r \<longrightarrow> r ! 0 \<noteq> k \<Longrightarrow> m' k = m k"
proof (induction rows arbitrary: m)
  case Nil
  then show ?case by simp
next
  case (Cons x xs)
  from Cons.prems have rest: "\<forall>r. Record r \<in> set xs \<and> 2 \<le> length r \<longrightarrow> r ! 0 \<noteq> k" by simp
  show ?case
  proof (cases x)
    case (Record rec)
    show ?thesis
    proof (cases "length rec < 2")
      case True
      with Cons.prems Record have "loadEntries m xs = Inr m'" by simp
      from Cons.IH [OF this rest] show ?thesis .
    next
      case False
      with Cons.prems Record have k: "rec ! 0 \<noteq> k" by simp
      show ?thesis
      proof (cases "atoi (rec ! 1)")
        case (Inl e)
        with Cons.prems Record False have "loadEntries m xs = Inr m'" by simp
        from Cons.IH [OF this rest] show ?thesis .
      next
        case (Inr v)
        with Cons.prems Record False have "loadEntries (m(rec ! 0 \<mapsto> v)) xs = Inr m'" by simp
        from Cons.IH [OF this rest] k show ?thesis by simp
      qed
    qed
  next
    case ReadFailure
    with Cons.prems show ?thesis by simp
  qed
qed

text \<open>The map holds, for a key, the ID of the last well-formed row with that key.\<close>

lemma loadEntries_last:
  assumes "loadEntries m (pre @ Record r2 # post) = Inr m'"
    and "2 \<le> length r2" and "atoi (r2 ! 1) = Inr v"
    and "\<forall>r. Record r \<in> set post \<and> 2 \<le> length r \<longrightarrow> r ! 0 \<noteq> r2 ! 0"
  shows "m' (r2 ! 0) = Some v"
proof -
  from assms(1) obtain m1 where "loadEntries m pre = Inr m1"
    and rest: "loadEntries m1 (Record r2 # post) = Inr m'"
    by (auto simp: loadEntries_append split: sum.splits)
  from rest assms(2,3) have "loadEntries (m1(r2 ! 0 \<mapsto> v)) post = Inr m'" by simp
  from loadEntries_other [OF this assms(4)] show ?thesis by simp
qed

lemma Open_entries:
  "Open rows vb ib = Inr db \<Longrightarrow> loadEntries Map.empty rows = Inr (entries db)"
  by (auto simp: Open_def split: sum.splits if_splits)

text \<open>
  C9. Last occurrence wins at load time: when the entries file has two rows with the
  same OUI in the first column, both with a numeric ID, and no row after the second has
  that OUI, the entries map of the DB that \<^verbatim>\<open>Open\<close> returns holds the ID of the second.
\<close>

theorem open_last_row_wins:
  assumes "Open (pre @ Record r1 # mid @ Record r2 # post) vendorsBytes indexBytes = Inr db"
    and "2 \<le> length r1" and "atoi (r1 ! 1) = Inr v1"
    and "2 \<le> length r2" and "atoi (r2 ! 1) = Inr v2"
    and "r1 ! 0 = r2 ! 0"
    and "\<forall>r. Record r \<in> set post \<and> 2 \<le> length r \<longrightarrow> r ! 0 \<noteq> r2 ! 0"
  shows "entries db (r2 ! 0) = Some v2"
proof -
  from Open_entries [OF assms(1)]
  have "loadEntries Map.empty ((pre @ Record r1 # mid) @ Record r2 # post) = Inr (entries db)"
    by simp
  from loadEntries_last [OF this assms(4,5,7)] show ?thesis .
qed

theorem open_last_row_wins_witness:
  "(\<exists>db. Open ([] @ Record [''aabbcc'', ''1''] # [] @ Record [''aabbcc'', ''2''] # [])
           (''Acme'' @ [LF] @ ''Bolt'' @ [LF]) (le64_bytes 0 @ le64_bytes 5 @ le64_bytes 10) = Inr db
         \<and> entries db ([''aabbcc'', ''2''] ! 0) = Some 2)
   \<and> atoi ([''aabbcc'', ''1''] ! 1) = Inr 1 \<and> atoi ([''aabbcc'', ''2''] ! 1) = Inr 2"
proof -
  have a1: "atoi ([''aabbcc'', ''1''] ! 1) = Inr 1" by code_simp
  have a2: "atoi ([''aabbcc'', ''2''] ! 1) = Inr 2" by code_simp
  have "\<exists>db. Open ([] @ Record [''aabbcc'', ''1''] # [] @ Record [''aabbcc'', ''2''] # [])
           (''Acme'' @ [LF] @ ''Bolt'' @ [LF]) (le64_bytes 0 @ le64_bytes 5 @ le64_bytes 10) = Inr db"
    by (cases "Open ([] @ Record [''aabbcc'', ''1''] # [] @ Record [''aabbcc'', ''2''] # [])
           (''Acme'' @ [LF] @ ''Bolt'' @ [LF]) (le64_bytes 0 @ le64_bytes 5 @ le64_bytes 10)")
       (simp_all add: Open_def a1 a2 readOffsets.simps le64_bytes_def split: sum.splits if_splits)
  then obtain db where o: "Open ([] @ Record [''aabbcc'', ''1''] # [] @ Record [''aabbcc'', ''2''] # [])
           (''Acme'' @ [LF] @ ''Bolt'' @ [LF]) (le64_bytes 0 @ le64_bytes 5 @ le64_bytes 10) = Inr db" ..
  have "entries db ([''aabbcc'', ''2''] ! 0) = Some 2"
    by (rule open_last_row_wins [OF o _ a1 _ a2]) simp_all
  with o a1 a2 show ?thesis by blast
qed

section \<open>Properties of the offset indexer\<close>

text \<open>
  C3. Offset index structure. The claim fails on the code for a file whose lines end
  in carriage return and line feed: the scanner drops the carriage return from each
  token, so every offset after the first falls short by one byte per line before it.
  For the six-byte file of the two lines \<^verbatim>\<open>A\<close> and \<^verbatim>\<open>B\<close>, each ended by CR LF, the
  index holds the offsets 0, 2 and 4: the last one is not the length of the file, and
  the second one is not where the second line starts.
\<close>

theorem createIndex_crlf_offsets_short:
  "createIndex (''A'' @ [CR, LF] @ ''B'' @ [CR, LF]) = (le64_bytes 0 @ le64_bytes 2 @ le64_bytes 4, None)
   \<and> indexOffsets (''A'' @ [CR, LF] @ ''B'' @ [CR, LF]) = ([0, 2, 4], None)
   \<and> length (''A'' @ [CR, LF] @ ''B'' @ [CR, LF]) = 6
   \<and> drop 2 (''A'' @ [CR, LF] @ ''B'' @ [CR, LF]) = [LF] @ ''B'' @ [CR, LF]"
  by code_simp

subsection \<open>Files whose lines end in a line feed alone\<close>

lemma scanLines_line:
  "LF \<notin> set l \<Longrightarrow>
   scanLines cur (l @ LF # rest) =
     (if maxScanTokenSize \<le> int (length (cur @ l)) then ([], True)
      else case scanLines [] rest of (toks, tooLong) \<Rightarrow> (dropCR (cur @ l) # toks, tooLong))"
proof (induction l arbitrary: cur)
  case Nil
  show ?case by simp
next
  case (Cons a l)
  then have "a \<noteq> LF" "LF \<notin> set l" by auto
  then have "scanLines cur ((a # l) @ LF # rest) = scanLines (cur @ [a]) (l @ LF # rest)"
    by simp
  also note Cons.IH [OF \<open>LF \<notin> set l\<close>, of "cur @ [a]"]
  finally show ?case by simp
qed

lemma scanLines_fileOfLines:
  assumes "\<forall>l \<in> set ls. LF \<notin> set l \<and> int (length l) < maxScanTokenSize"
  shows "scanLines [] (fileOfLines ls) = (map dropCR ls, False)"
  using assms
proof (induction ls)
  case Nil
  show ?case by (simp add: fileOfLines_def)
next
  case (Cons l ls)
  then have l: "LF \<notin> set l" "\<not> maxScanTokenSize \<le> int (length l)" by simp_all
  from Cons have rest: "scanLines [] (fileOfLines ls) = (map dropCR ls, False)" by simp
  have "fileOfLines (l # ls) = l @ LF # fileOfLines ls" by (simp add: fileOfLines_def)
  with scanLines_line [OF l(1), of "[]" "fileOfLines ls"] l(2) rest show ?case by simp
qed

lemma fileOfLines_snoc: "fileOfLines (ls @ [l]) = fileOfLines ls @ l @ [LF]"
  by (simp add: fileOfLines_def)

lemma writeOffsets_closed:
  "writeOffsets off toks =
     map (\<lambda>i. off + of_nat (length (fileOfLines (take (Suc i) toks)))) [0..<length toks]"
proof (induction toks arbitrary: off)
  case Nil
  show ?case by simp
next
  case (Cons t toks)
  have "[0..<length (t # toks)] = 0 # map Suc [0..<length toks]"
    by (simp add: upt_conv_Cons map_Suc_upt del: upt_Suc)
  then show ?case
    by (simp add: Cons.IH fileOfLines_def comp_def add.assoc Let_def del: upt_Suc)
qed

text \<open>
  For a file of lines that end in a line feed alone and are shorter than the
  scanner's limit, the index holds, for each \<open>i\<close> up to the number of lines, the number
  of bytes of the first \<open>i\<close> lines: one offset per line and one more, the first 0, the
  last the length of the file, each step the length of a line plus one.
\<close>

lemma indexOffsets_lf_lines:
  assumes "\<forall>l \<in> set ls. LF \<notin> set l \<and> int (length l) < maxScanTokenSize \<and> dropCR l = l"
  shows "indexOffsets (fileOfLines ls) =
           (map (\<lambda>i. of_nat (length (fileOfLines (take i ls)))) [0..<Suc (length ls)], None)"
proof -
  from assms have "scanLines [] (fileOfLines ls) = (map dropCR ls, False)"
    by (intro scanLines_fileOfLines) simp
  moreover from assms have "map dropCR ls = ls" by (induction ls) simp_all
  moreover have "[0..<Suc (length ls)] = 0 # map Suc [0..<length ls]"
    by (simp add: upt_conv_Cons map_Suc_upt del: upt_Suc)
  ultimately show ?thesis
    by (simp add: indexOffsets_def writeOffsets_closed comp_def fileOfLines_def del: upt_Suc)
qed

lemma sint_of_nat_small: "n < 2 ^ 63 \<Longrightarrow> sint (of_nat n :: int64) = int n"
  by (simp add: signed_of_nat signed_take_bit_int_eq_self)

lemma index_structure_lf_lines:
  assumes lines: "\<forall>l \<in> set ls. LF \<notin> set l \<and> int (length l) < maxScanTokenSize \<and> dropCR l = l"
    and size: "length (fileOfLines ls) < 2 ^ 63"
  shows "\<exists>offs. indexOffsets (fileOfLines ls) = (offs, None)
           \<and> createIndex (fileOfLines ls) = (concat (map le64_bytes offs), None)
           \<and> length offs = length ls + 1
           \<and> offs ! 0 = 0
           \<and> sint (last offs) = int (length (fileOfLines ls))
           \<and> (\<forall>i < length ls. sint (offs ! Suc i) - sint (offs ! i) = int (length (ls ! i)) + 1)"
proof -
  let ?pos = "\<lambda>i. length (fileOfLines (take i ls))"
  let ?offs = "map (\<lambda>i. of_nat (?pos i) :: int64) [0..<Suc (length ls)]"
  have io: "indexOffsets (fileOfLines ls) = (?offs, None)"
    by (rule indexOffsets_lf_lines [OF lines])
  have mono: "?pos i \<le> length (fileOfLines ls)" for i
  proof -
    have "fileOfLines ls = fileOfLines (take i ls) @ fileOfLines (drop i ls)"
      unfolding fileOfLines_def by (metis append_take_drop_id concat_append map_append)
    then have "length (fileOfLines ls) = ?pos i + length (fileOfLines (drop i ls))"
      by (metis length_append)
    then show ?thesis by simp
  qed
  have s: "sint (of_nat (?pos i) :: int64) = int (?pos i)" for i
    using mono [of i] size by (intro sint_of_nat_small) simp
  have step: "?pos (Suc i) = ?pos i + length (ls ! i) + 1" if "i < length ls" for i
    using that by (simp add: take_Suc_conv_app_nth fileOfLines_snoc)
  have nth: "?offs ! i = of_nat (?pos i)" if "i \<le> length ls" for i
    using that by (simp add: nth_append del: upt_Suc)
  have "length ?offs = length ls + 1" by simp
  moreover have "?offs ! 0 = 0" by (simp add: nth [of 0] fileOfLines_def del: upt_Suc)
  moreover have "sint (last ?offs) = int (length (fileOfLines ls))"
    by (simp add: s [of "length ls", simplified])
  moreover have "\<forall>i < length ls. sint (?offs ! Suc i) - sint (?offs ! i) = int (length (ls ! i)) + 1"
  proof (intro allI impI)
    fix i assume i: "i < length ls"
    then have le: "Suc i \<le> length ls" "i \<le> length ls" by simp_all
    have e: "?offs ! Suc i = of_nat (?pos (Suc i))" "?offs ! i = of_nat (?pos i)"
      by (rule nth [OF le(1)], rule nth [OF le(2)])
    have "sint (?offs ! Suc i) - sint (?offs ! i) = int (?pos (Suc i)) - int (?pos i)"
      unfolding e s ..
    also have "\<dots> = int (length (ls ! i)) + 1"
      unfolding step [OF i] by simp
    finally show "sint (?offs ! Suc i) - sint (?offs ! i) = int (length (ls ! i)) + 1" .
  qed
  moreover have "createIndex (fileOfLines ls) = (concat (map le64_bytes ?offs), None)"
    by (simp only: createIndex_def io prod.case)
  ultimately show ?thesis using io by blast
qed

subsection \<open>The index file as Open reads it\<close>


lemma le64_step:
  "ucast (ucast (w :: int64) :: 8 word) OR push_bit 8 (take_bit m (drop_bit 8 w)) = take_bit (8 + m) w"
proof (rule bit_eqI)
  fix n
  assume "possible_bit TYPE(int64) n"
  then have n64: "n < 64" by (simp add: possible_bit_def)
  show "bit (ucast (ucast w :: 8 word) OR push_bit 8 (take_bit m (drop_bit 8 w))) n
        = bit (take_bit (8 + m) w) n"
  proof (cases "n < 8")
    case True
    then show ?thesis by (auto simp: bit_simps)
  next
    case False
    then have "8 + (n - 8) = n" by simp
    with False n64 show ?thesis by (auto simp: bit_simps)
  qed
qed

lemma le64_prefix:
  "foldr (\<lambda>b acc. ucast b OR push_bit 8 acc)
     (map (\<lambda>i. ucast (drop_bit (8 * i) w) :: 8 word) [0..<k]) (0 :: int64) = take_bit (8 * k) w"
proof (induction k arbitrary: w)
  case 0
  show ?case by simp
next
  case (Suc k)
  have "[0..<Suc k] = 0 # map Suc [0..<k]"
    by (simp add: upt_conv_Cons map_Suc_upt del: upt_Suc)
  then have "map (\<lambda>i. ucast (drop_bit (8 * i) w) :: 8 word) [0..<Suc k]
      = ucast w # map (\<lambda>i. ucast (drop_bit (8 * i) (drop_bit 8 w))) [0..<k]"
    by (simp add: comp_def add.commute del: upt_Suc)
  then have "foldr (\<lambda>b acc. ucast b OR push_bit 8 acc)
     (map (\<lambda>i. ucast (drop_bit (8 * i) w) :: 8 word) [0..<Suc k]) (0 :: int64)
     = ucast (ucast w :: 8 word) OR push_bit 8 (take_bit (8 * k) (drop_bit 8 w))"
    by (simp only: foldr.simps comp_def Suc.IH)
  also have "\<dots> = take_bit (8 * Suc k) w"
    by (simp only: le64_step) simp
  finally show ?case .
qed

lemma le64_roundtrip: "le64_word (le64_bytes w) = w"
  unfolding le64_word_def le64_bytes_def le64_prefix by (simp add: take_bit_word_eq_self)

lemma length_le64_bytes: "length (le64_bytes w) = 8"
  by (simp add: le64_bytes_def)

lemma readOffsets_written:
  "readOffsets (concat (map le64_bytes offs)) = Inr offs"
proof (induction offs)
  case Nil
  show ?case by (simp add: readOffsets.simps)
next
  case (Cons w offs)
  have "le64_bytes w \<noteq> []" using length_le64_bytes [of w] by auto
  then show ?case
    by (subst readOffsets.simps) (simp add: Cons.IH length_le64_bytes le64_roundtrip)
qed

subsection \<open>Reading a line through the index\<close>

lemma fileOfLines_append: "fileOfLines (xs @ ys) = fileOfLines xs @ fileOfLines ys"
  by (simp add: fileOfLines_def)

lemma drop_fileOfLines:
  "drop (length (fileOfLines (take i ls))) (fileOfLines ls) = fileOfLines (drop i ls)"
proof -
  have "fileOfLines ls = fileOfLines (take i ls) @ fileOfLines (drop i ls)"
    by (simp add: fileOfLines_append [symmetric])
  then show ?thesis by (metis append_eq_conv_conj)
qed

lemma line_at_offset:
  assumes "i < length ls"
  shows "take (length (fileOfLines (take (Suc i) ls)) - length (fileOfLines (take i ls)))
           (drop (length (fileOfLines (take i ls))) (fileOfLines ls)) = ls ! i @ [LF]"
proof -
  from assms have "drop i ls = ls ! i # drop (Suc i) ls" by (simp add: Cons_nth_drop_Suc)
  then have d: "fileOfLines (drop i ls) = (ls ! i @ [LF]) @ fileOfLines (drop (Suc i) ls)"
    by (simp add: fileOfLines_def)
  from assms have "length (fileOfLines (take (Suc i) ls)) - length (fileOfLines (take i ls))
      = length (ls ! i @ [LF])"
    by (simp add: take_Suc_conv_app_nth fileOfLines_snoc)
  then show ?thesis unfolding drop_fileOfLines d by simp
qed

lemma TrimRight_line:
  assumes "LF \<notin> set l" and "dropCR l = l"
  shows "TrimRight (l @ [LF]) [CR, LF] = l"
proof (cases "l = []")
  case True
  then show ?thesis by (simp add: TrimRight_def)
next
  case False
  have "last l \<noteq> CR"
  proof
    assume "last l = CR"
    with False assms(2) have "butlast l = l" by (simp add: dropCR_def)
    then have "length l - 1 = length l" by (metis length_butlast)
    moreover from False obtain n where "length l = Suc n" by (cases l) auto
    ultimately show False by simp
  qed
  moreover from False assms(1) have "last l \<noteq> LF" using last_in_set by fastforce
  ultimately have "dropWhile (\<lambda>c. c \<in> set [CR, LF]) (rev l) = rev l" using False
    by (cases l rule: rev_cases) auto
  then show ?thesis by (simp add: TrimRight_def LF_def)
qed

text \<open>
  With the index \<^verbatim>\<open>createIndex\<close> writes for a vendors file of lines that end in a line
  feed alone, \<^verbatim>\<open>vendorByID\<close> returns line \<open>v\<close> of the file, counting from 1.
\<close>

lemma vendorByID_reads_line:
  assumes lines: "\<forall>l \<in> set ls. LF \<notin> set l \<and> int (length l) < maxScanTokenSize \<and> dropCR l = l"
    and size: "length (fileOfLines ls) < 2 ^ 63"
    and db: "vendors db = fileOfLines ls" "offsets db = fst (indexOffsets (fileOfLines ls))"
    and v: "0 < sint v" "sint v \<le> int (length ls)"
  shows "vendorByID db v = Return (Inr (ls ! (nat (sint v) - 1)))"
proof -
  let ?pos = "\<lambda>i. length (fileOfLines (take i ls))"
  let ?k = "nat (sint v)"
  from v have k: "?k - 1 < length ls" "Suc (?k - 1) = ?k" "?k \<le> length ls" by simp_all
  have offs: "offsets db = map (\<lambda>i. of_nat (?pos i)) [0..<Suc (length ls)]"
    by (simp only: db indexOffsets_lf_lines [OF lines] fst_conv)
  have mono: "?pos i \<le> length (fileOfLines ls)" for i
  proof -
    have "fileOfLines ls = fileOfLines (take i ls) @ fileOfLines (drop i ls)"
      by (simp add: fileOfLines_append [symmetric])
    then have "length (fileOfLines ls) = ?pos i + length (fileOfLines (drop i ls))"
      by (metis length_append)
    then show ?thesis by simp
  qed
  have s: "sint (of_nat (?pos i) :: int64) = int (?pos i)" for i
    using mono [of i] size by (intro sint_of_nat_small) simp
  have nth: "offsets db ! i = of_nat (?pos i)" if "i \<le> length ls" for i
    unfolding offs using that by (simp add: nth_append del: upt_Suc)
  have start: "sint (offsets db ! (?k - 1)) = int (?pos (?k - 1))"
    using k by (simp only: nth [of "?k - 1"] s)
  have stop: "sint (offsets db ! ?k) = int (?pos ?k)"
    using k by (simp only: nth [OF k(3)] s)
  have le: "?pos (?k - 1) \<le> ?pos ?k"
    using k(1) by (subst (2) k(2) [symmetric]) (simp add: take_Suc_conv_app_nth fileOfLines_snoc)
  have inrange: "sint v < int (length (offsets db))" using v by (simp add: offs)
  have line: "take (?pos ?k - ?pos (?k - 1)) (drop (?pos (?k - 1)) (fileOfLines ls))
               = ls ! (?k - 1) @ [LF]"
    using line_at_offset [OF k(1)] by (simp only: k(2))
  from lines k(1) have l: "LF \<notin> set (ls ! (?k - 1))" "dropCR (ls ! (?k - 1)) = ls ! (?k - 1)"
    by simp_all
  have ok: "\<not> (int (?pos (?k - 1)) < 0 \<or> int (?pos ?k) < int (?pos (?k - 1))
               \<or> int (length (fileOfLines ls)) < int (?pos ?k))"
    using le mono [of ?k] by simp
  show ?thesis
    unfolding vendorByID_valid [OF v(1) inrange] start stop db(1)
    by (simp only: ok if_False nat_int line TrimRight_line [OF l])
qed

section \<open>Properties of the name normalizer\<close>

text \<open>One application of a pattern deletes nothing, or one match at the end of the text.\<close>

lemma ReplaceAll_suffix:
  "\<exists>t. b = ReplaceAll r b @ t \<and> (t = [] \<or> matches r t)"
proof (cases "find (\<lambda>i. matches r (drop i b)) [0..<length b]")
  case None
  then show ?thesis by (simp add: ReplaceAll_def)
next
  case (Some i)
  then have "matches r (drop i b)" by (auto simp: find_Some_iff)
  moreover from Some have "ReplaceAll r b = take i b" by (simp add: ReplaceAll_def)
  ultimately have "b = ReplaceAll r b @ drop i b \<and> (drop i b = [] \<or> matches r (drop i b))"
    by simp
  then show ?thesis ..
qed

text \<open>
  C8, as stated: one call strips at most one suffix class. It fails: in
  \<^verbatim>\<open>Foo Co Inc\<close> the first pattern removes \<^verbatim>\<open>Inc\<close> and the second, applied to what
  is left, removes \<^verbatim>\<open>Co\<close>.
\<close>

theorem simplifyName_strips_two_classes:
  "strippedClasses ''Foo Co Inc'' = 2
   \<and> ReplaceAll llcRegex ''Foo Co Inc'' = ''Foo Co''
   \<and> ReplaceAll coRegex ''Foo Co'' = ''Foo''
   \<and> simplifyName ''Foo Co Inc'' = ''Foo''
   \<and> simplifyName_cmd ''Foo Co Inc'' = ''Foo''"
  by code_simp

text \<open>
  C8, amended: \<^verbatim>\<open>simplifyName\<close> applies the three patterns once each, in the order
  llc family, co family, gmbh, each to the result of the one before; each application
  deletes nothing or one match of its own pattern at the end of the text, and is not
  repeated. One call therefore strips between zero and three suffixes, at most one of
  each class: \<^verbatim>\<open>Foo Inc Co\<close> becomes \<^verbatim>\<open>Foo Inc\<close>, \<^verbatim>\<open>Foo Inc Inc\<close> becomes
  \<^verbatim>\<open>Foo Inc\<close>, and \<^verbatim>\<open>Foo GmbH Co., Ltd.\<close> becomes \<^verbatim>\<open>Foo\<close>.
\<close>

theorem simplifyName_one_match_per_pattern:
  "(\<exists>b1 b2 b3 s1 s2 s3.
      name = b1 @ s1 \<and> (s1 = [] \<or> matches llcRegex s1)
      \<and> b1 = b2 @ s2 \<and> (s2 = [] \<or> matches coRegex s2)
      \<and> b2 = b3 @ s3 \<and> (s3 = [] \<or> matches gmbhRegex s3)
      \<and> simplifyName name = TrimSpace b3 \<and> simplifyName_cmd name = b3)
   \<and> strippedClasses name \<le> 3
   \<and> simplifyName ''Foo Inc Co'' = ''Foo Inc''
   \<and> simplifyName ''Foo Inc Inc'' = ''Foo Inc''
   \<and> simplifyName ''Foo GmbH Co., Ltd.'' = ''Foo''
   \<and> strippedClasses ''Foo GmbH Co., Ltd.'' = 3"
proof -
  obtain s1 where s1: "name = ReplaceAll llcRegex name @ s1" "s1 = [] \<or> matches llcRegex s1"
    using ReplaceAll_suffix [of name llcRegex] by blast
  obtain s2 where s2: "ReplaceAll llcRegex name = ReplaceAll coRegex (ReplaceAll llcRegex name) @ s2"
      "s2 = [] \<or> matches coRegex s2"
    using ReplaceAll_suffix [of "ReplaceAll llcRegex name" coRegex] by blast
  obtain s3 where s3: "ReplaceAll coRegex (ReplaceAll llcRegex name)
        = ReplaceAll gmbhRegex (ReplaceAll coRegex (ReplaceAll llcRegex name)) @ s3"
      "s3 = [] \<or> matches gmbhRegex s3"
    using ReplaceAll_suffix [of "ReplaceAll coRegex (ReplaceAll llcRegex name)" gmbhRegex] by blast
  have names: "simplifyName name
        = TrimSpace (ReplaceAll gmbhRegex (ReplaceAll coRegex (ReplaceAll llcRegex name)))"
      "simplifyName_cmd name = ReplaceAll gmbhRegex (ReplaceAll coRegex (ReplaceAll llcRegex name))"
    by (simp_all add: simplifyName_def simplifyName_cmd_def)
  from s1 s2 s3 names have steps: "\<exists>b1 b2 b3 s1 s2 s3.
      name = b1 @ s1 \<and> (s1 = [] \<or> matches llcRegex s1)
      \<and> b1 = b2 @ s2 \<and> (s2 = [] \<or> matches coRegex s2)
      \<and> b2 = b3 @ s3 \<and> (s3 = [] \<or> matches gmbhRegex s3)
      \<and> simplifyName name = TrimSpace b3 \<and> simplifyName_cmd name = b3"
    by blast
  have count: "strippedClasses name \<le> 3" by (simp add: strippedClasses_def Let_def)
  have e1: "simplifyName ''Foo Inc Co'' = ''Foo Inc''" by code_simp
  have e2: "simplifyName ''Foo Inc Inc'' = ''Foo Inc''" by code_simp
  have e3: "simplifyName ''Foo GmbH Co., Ltd.'' = ''Foo''" by code_simp
  have e4: "strippedClasses ''Foo GmbH Co., Ltd.'' = 3" by code_simp
  from steps count e1 e2 e3 e4 show ?thesis by (intro conjI)
qed

section \<open>Properties of the dataset builder\<close>

subsection \<open>What the loop keeps true\<close>

lemma firstWinsI:
  assumes "distinct (map OUI es)" and "OUI ` set es = fst ` set cs"
    and "distinct vs" and "set vs = Vendor ` set es"
    and "\<And>e. e \<in> set es \<Longrightarrow> map_of cs (OUI e) = Some (Vendor e)"
    and "\<And>e. e \<in> set es \<Longrightarrow> 0 \<le> VendorID e \<and> nat (VendorID e) < length vs
                              \<and> vs ! nat (VendorID e) = Vendor e"
  shows "firstWins cs es vs"
  using assms unfolding firstWins_def list_all_iff by blast

lemma firstWinsD:
  assumes "firstWins cs es vs"
  shows "distinct (map OUI es)" and "OUI ` set es = fst ` set cs"
    and "distinct vs" and "set vs = Vendor ` set es"
    and "\<And>e. e \<in> set es \<Longrightarrow> map_of cs (OUI e) = Some (Vendor e)"
    and "\<And>e. e \<in> set es \<Longrightarrow> 0 \<le> VendorID e"
    and "\<And>e. e \<in> set es \<Longrightarrow> nat (VendorID e) < length vs"
    and "\<And>e. e \<in> set es \<Longrightarrow> vs ! nat (VendorID e) = Vendor e"
  using assms unfolding firstWins_def list_all_iff by blast+

lemma buildInvI:
  assumes "ouiMap st = map_of cs" and "nextID st = int (length (vendorsAcc st))"
    and "\<And>v i. vendorMap st v = Some i
            \<longleftrightarrow> 0 \<le> i \<and> nat i < length (vendorsAcc st) \<and> vendorsAcc st ! nat i = v"
    and "\<And>e. e \<in> set (entriesAcc st) \<Longrightarrow> vendorMap st (Vendor e) = Some (VendorID e)"
    and "firstWins cs (entriesAcc st) (vendorsAcc st)"
  shows "buildInv st cs"
  using assms unfolding buildInv_def list_all_iff by blast

lemma buildInvD:
  assumes "buildInv st cs"
  shows "ouiMap st = map_of cs" and "nextID st = int (length (vendorsAcc st))"
    and "\<And>v i. vendorMap st v = Some i
            \<longleftrightarrow> 0 \<le> i \<and> nat i < length (vendorsAcc st) \<and> vendorsAcc st ! nat i = v"
    and "\<And>e. e \<in> set (entriesAcc st) \<Longrightarrow> vendorMap st (Vendor e) = Some (VendorID e)"
    and "firstWins cs (entriesAcc st) (vendorsAcc st)"
  using assms unfolding buildInv_def list_all_iff by blast+

lemma buildInv_init: "buildInv initState []"
  by (rule buildInvI) (simp_all add: initState_def firstWins_def)

lemma map_of_snoc_new: "map_of cs k = None \<Longrightarrow> map_of (cs @ [(k, v)]) = (map_of cs)(k \<mapsto> v)"
  by (auto simp: map_add_def fun_eq_iff split: option.splits)

lemma map_of_snoc_old: "map_of cs k \<noteq> None \<Longrightarrow> map_of (cs @ [(k, v)]) = map_of cs"
  by (auto simp: map_add_def fun_eq_iff split: option.splits)

lemma register_dup:
  assumes "ouiMap st k \<noteq> None" shows "register st (k, v) = st"
  using assms by (simp add: register_def)

lemma register_known_vendor:
  assumes "ouiMap st k = None" and "vendorMap st v = Some i"
  shows "register st (k, v) =
           st\<lparr>ouiMap := (ouiMap st)(k \<mapsto> v),
              entriesAcc := entriesAcc st @ [\<lparr>OUI = k, VendorID = i, Vendor = v\<rparr>]\<rparr>"
  using assms by (simp add: register_def Let_def)

lemma register_new_vendor:
  assumes "ouiMap st k = None" and "vendorMap st v = None"
  shows "register st (k, v) =
           st\<lparr>ouiMap := (ouiMap st)(k \<mapsto> v),
              vendorsAcc := vendorsAcc st @ [v],
              vendorMap := (vendorMap st)(v \<mapsto> nextID st),
              nextID := nextID st + 1,
              entriesAcc := entriesAcc st @ [\<lparr>OUI = k, VendorID = nextID st, Vendor = v\<rparr>]\<rparr>"
  using assms by (simp add: register_def Let_def)

text \<open>A row whose OUI is already assigned changes nothing.\<close>

lemma buildInv_dup:
  assumes inv: "buildInv st cs" and dup: "ouiMap st k \<noteq> None"
  shows "buildInv (register st (k, v)) (cs @ [(k, v)])"
proof -
  note d = buildInvD [OF inv]
  from dup d(1) have old: "map_of cs k \<noteq> None" by simp
  then have same: "map_of (cs @ [(k, v)]) = map_of cs" by (rule map_of_snoc_old)
  from old have "k \<in> fst ` set cs" by (simp add: map_of_eq_None_iff)
  then have img: "fst ` set (cs @ [(k, v)]) = fst ` set cs" by auto
  from d(5) have fw: "firstWins (cs @ [(k, v)]) (entriesAcc st) (vendorsAcc st)"
    unfolding firstWins_def same img .
  show ?thesis
    unfolding register_dup [OF dup]
    by (rule buildInvI) (simp_all only: d(1,2,3,4) same fw)
qed

text \<open>A row with a new OUI and a vendor name that already has an ID.\<close>

lemma buildInv_known_vendor:
  assumes inv: "buildInv st cs" and new: "ouiMap st k = None" and known: "vendorMap st v = Some i"
  shows "buildInv (register st (k, v)) (cs @ [(k, v)])"
proof -
  note d = buildInvD [OF inv]
  note f = firstWinsD [OF d(5)]
  from new d(1) have none: "map_of cs k = None" by simp
  then have notin: "k \<notin> fst ` set cs" by (simp add: map_of_eq_None_iff)
  note m = map_of_snoc_new [OF none, of v]
  from known d(3) have i: "0 \<le> i" "nat i < length (vendorsAcc st)" "vendorsAcc st ! nat i = v"
    by simp_all
  then have vin: "v \<in> set (vendorsAcc st)" by (metis nth_mem)
  have fw: "firstWins (cs @ [(k, v)]) (entriesAcc st @ [\<lparr>OUI = k, VendorID = i, Vendor = v\<rparr>])
              (vendorsAcc st)"
  proof (rule firstWinsI)
    show "distinct (map OUI (entriesAcc st @ [\<lparr>OUI = k, VendorID = i, Vendor = v\<rparr>]))"
      using f(1) f(2) notin by simp
    show "OUI ` set (entriesAcc st @ [\<lparr>OUI = k, VendorID = i, Vendor = v\<rparr>])
            = fst ` set (cs @ [(k, v)])"
      using f(2) by simp
    show "distinct (vendorsAcc st)" by (rule f(3))
    show "set (vendorsAcc st) = Vendor ` set (entriesAcc st @ [\<lparr>OUI = k, VendorID = i, Vendor = v\<rparr>])"
      using f(4) vin by auto
  next
    fix e assume e: "e \<in> set (entriesAcc st @ [\<lparr>OUI = k, VendorID = i, Vendor = v\<rparr>])"
    show "map_of (cs @ [(k, v)]) (OUI e) = Some (Vendor e)"
    proof (cases "e \<in> set (entriesAcc st)")
      case True
      with f(2) notin have "OUI e \<noteq> k" by auto
      with f(5) [OF True] show ?thesis unfolding m by simp
    next
      case False
      with e have "e = \<lparr>OUI = k, VendorID = i, Vendor = v\<rparr>" by simp
      then show ?thesis unfolding m by simp
    qed
    show "0 \<le> VendorID e \<and> nat (VendorID e) < length (vendorsAcc st)
            \<and> vendorsAcc st ! nat (VendorID e) = Vendor e"
    proof (cases "e \<in> set (entriesAcc st)")
      case True
      from f(6) [OF True] f(7) [OF True] f(8) [OF True] show ?thesis by simp
    next
      case False
      with e have "e = \<lparr>OUI = k, VendorID = i, Vendor = v\<rparr>" by simp
      with i show ?thesis by simp
    qed
  qed
  show ?thesis
    unfolding register_known_vendor [OF new known]
  proof (rule buildInvI)
    fix e
    assume "e \<in> set (entriesAcc (st\<lparr>ouiMap := (ouiMap st)(k \<mapsto> v),
              entriesAcc := entriesAcc st @ [\<lparr>OUI = k, VendorID = i, Vendor = v\<rparr>]\<rparr>))"
    then have "e \<in> set (entriesAcc st) \<or> e = \<lparr>OUI = k, VendorID = i, Vendor = v\<rparr>" by auto
    then show "vendorMap (st\<lparr>ouiMap := (ouiMap st)(k \<mapsto> v),
              entriesAcc := entriesAcc st @ [\<lparr>OUI = k, VendorID = i, Vendor = v\<rparr>]\<rparr>) (Vendor e)
            = Some (VendorID e)"
      using d(4) known by auto
  qed (simp_all add: d(1,2,3) m fw del: map_of_append)
qed

text \<open>A row with a new OUI and a new vendor name, which gets the next ID.\<close>

lemma buildInv_new_vendor:
  assumes inv: "buildInv st cs" and new: "ouiMap st k = None" and fresh: "vendorMap st v = None"
  shows "buildInv (register st (k, v)) (cs @ [(k, v)])"
proof -
  note d = buildInvD [OF inv]
  note f = firstWinsD [OF d(5)]
  let ?n = "length (vendorsAcc st)"
  let ?e = "\<lparr>OUI = k, VendorID = nextID st, Vendor = v\<rparr>"
  from new d(1) have none: "map_of cs k = None" by simp
  then have notin: "k \<notin> fst ` set cs" by (simp add: map_of_eq_None_iff)
  note m = map_of_snoc_new [OF none, of v]
  have vnew: "v \<notin> set (vendorsAcc st)"
  proof
    assume "v \<in> set (vendorsAcc st)"
    then obtain j where "j < ?n" "vendorsAcc st ! j = v" by (auto simp: in_set_conv_nth)
    then have "vendorMap st v = Some (int j)" by (simp add: d(3))
    with fresh show False by simp
  qed
  have vm: "((vendorMap st)(v \<mapsto> nextID st)) w = Some i
        \<longleftrightarrow> 0 \<le> i \<and> nat i < length (vendorsAcc st @ [v]) \<and> (vendorsAcc st @ [v]) ! nat i = w"
    for w i
  proof (cases "0 \<le> i")
    case False
    then have "vendorMap st w \<noteq> Some i" using d(3) [of w i] by simp
    moreover from False have "i \<noteq> nextID st" using d(2) by simp
    ultimately show ?thesis using False by simp
  next
    case pos: True
    show ?thesis
    proof (cases "nat i < ?n")
      case True
      then have nth: "(vendorsAcc st @ [v]) ! nat i = vendorsAcc st ! nat i"
        by (simp add: nth_append)
      from True have nv: "vendorsAcc st ! nat i \<noteq> v" using vnew by (metis nth_mem)
      from True pos have ni: "i \<noteq> nextID st" using d(2) by simp
      show ?thesis
      proof (cases "w = v")
        case True
        with nv ni nth show ?thesis by simp
      next
        case False
        with True pos nth d(3) [of w i] show ?thesis by simp
      qed
    next
      case False
      then have old: "vendorMap st w \<noteq> Some i" using d(3) [of w i] by simp
      show ?thesis
      proof (cases "i = nextID st")
        case True
        then have "nat i = ?n" using d(2) by simp
        with True old fresh pos show ?thesis by auto
      next
        case ne: False
        with False pos have "\<not> nat i < length (vendorsAcc st @ [v])" using d(2) by auto
        with ne old show ?thesis by simp
      qed
    qed
  qed
  have fw: "firstWins (cs @ [(k, v)]) (entriesAcc st @ [?e]) (vendorsAcc st @ [v])"
  proof (rule firstWinsI)
    show "distinct (map OUI (entriesAcc st @ [?e]))"
      using f(1) f(2) notin by simp
    show "OUI ` set (entriesAcc st @ [?e]) = fst ` set (cs @ [(k, v)])"
      using f(2) by simp
    show "distinct (vendorsAcc st @ [v])" using f(3) vnew by simp
    show "set (vendorsAcc st @ [v]) = Vendor ` set (entriesAcc st @ [?e])"
      using f(4) by auto
  next
    fix e assume e: "e \<in> set (entriesAcc st @ [?e])"
    show "map_of (cs @ [(k, v)]) (OUI e) = Some (Vendor e)"
    proof (cases "e \<in> set (entriesAcc st)")
      case True
      with f(2) notin have "OUI e \<noteq> k" by auto
      with f(5) [OF True] show ?thesis unfolding m by simp
    next
      case False
      with e have "e = ?e" by simp
      then show ?thesis unfolding m by simp
    qed
    show "0 \<le> VendorID e \<and> nat (VendorID e) < length (vendorsAcc st @ [v])
            \<and> (vendorsAcc st @ [v]) ! nat (VendorID e) = Vendor e"
    proof (cases "e \<in> set (entriesAcc st)")
      case True
      from f(6) [OF True] f(7) [OF True] f(8) [OF True] show ?thesis by (simp add: nth_append)
    next
      case False
      with e have "e = ?e" by simp
      with d(2) show ?thesis by simp
    qed
  qed
  show ?thesis
    unfolding register_new_vendor [OF new fresh]
  proof (rule buildInvI)
    fix e
    assume "e \<in> set (entriesAcc (st\<lparr>ouiMap := (ouiMap st)(k \<mapsto> v),
              vendorsAcc := vendorsAcc st @ [v],
              vendorMap := (vendorMap st)(v \<mapsto> nextID st),
              nextID := nextID st + 1,
              entriesAcc := entriesAcc st @ [?e]\<rparr>))"
    then have "e \<in> set (entriesAcc st) \<or> e = ?e" by auto
    then show "vendorMap (st\<lparr>ouiMap := (ouiMap st)(k \<mapsto> v),
              vendorsAcc := vendorsAcc st @ [v],
              vendorMap := (vendorMap st)(v \<mapsto> nextID st),
              nextID := nextID st + 1,
              entriesAcc := entriesAcc st @ [?e]\<rparr>) (Vendor e) = Some (VendorID e)"
      using d(4) fresh by auto
  next
    fix w i
    show "vendorMap (st\<lparr>ouiMap := (ouiMap st)(k \<mapsto> v),
              vendorsAcc := vendorsAcc st @ [v],
              vendorMap := (vendorMap st)(v \<mapsto> nextID st),
              nextID := nextID st + 1,
              entriesAcc := entriesAcc st @ [?e]\<rparr>) w = Some i
          \<longleftrightarrow> 0 \<le> i
            \<and> nat i < length (vendorsAcc (st\<lparr>ouiMap := (ouiMap st)(k \<mapsto> v),
              vendorsAcc := vendorsAcc st @ [v],
              vendorMap := (vendorMap st)(v \<mapsto> nextID st),
              nextID := nextID st + 1,
              entriesAcc := entriesAcc st @ [?e]\<rparr>))
            \<and> vendorsAcc (st\<lparr>ouiMap := (ouiMap st)(k \<mapsto> v),
              vendorsAcc := vendorsAcc st @ [v],
              vendorMap := (vendorMap st)(v \<mapsto> nextID st),
              nextID := nextID st + 1,
              entriesAcc := entriesAcc st @ [?e]\<rparr>) ! nat i = w"
      using vm [of w i] by simp
  qed (simp_all add: d(1,2) m fw [unfolded d(2)] del: map_of_append)
qed

lemma buildInv_register:
  assumes "buildInv st cs"
  shows "buildInv (register st kv) (cs @ [kv])"
proof (cases kv)
  case (Pair k v)
  show ?thesis
  proof (cases "ouiMap st k")
    case (Some x)
    then have "ouiMap st k \<noteq> None" by simp
    from buildInv_dup [OF assms this] Pair show ?thesis by simp
  next
    case None
    show ?thesis
    proof (cases "vendorMap st v")
      case (Some i)
      from buildInv_known_vendor [OF assms None Some] Pair show ?thesis by simp
    next
      case none: None
      from buildInv_new_vendor [OF assms None none] Pair show ?thesis by simp
    qed
  qed
qed

lemma candidates_Cons_Record:
  "candidates U filt (Record rec # rows) =
     (case candidate U filt rec of Some kv \<Rightarrow> [kv] | None \<Rightarrow> []) @ candidates U filt rows"
  by (simp add: candidates_def)

lemma buildLoop_inv:
  "buildInv st cs \<Longrightarrow> buildLoop U filt st rows = Inr st'
     \<Longrightarrow> buildInv st' (cs @ candidates U filt rows)"
proof (induction rows arbitrary: st cs)
  case Nil
  then show ?case by (simp add: candidates_def)
next
  case (Cons r rows)
  show ?case
  proof (cases r)
    case ReadFailure
    with Cons.prems show ?thesis by simp
  next
    case (Record rec)
    show ?thesis
    proof (cases "candidate U filt rec")
      case None
      with Cons.prems Record have "buildLoop U filt st rows = Inr st'" by simp
      from Cons.IH [OF Cons.prems(1) this] None Record show ?thesis
        by (simp add: candidates_Cons_Record)
    next
      case (Some kv)
      with Cons.prems Record have "buildLoop U filt (register st kv) rows = Inr st'" by simp
      from Cons.IH [OF buildInv_register [OF Cons.prems(1)] this] Some Record show ?thesis
        by (simp add: candidates_Cons_Record)
    qed
  qed
qed

subsection \<open>The sort\<close>

lemma sortSlice_mset: "mset (sortSlice P k xs) = mset xs"
  using Rep_sorter [of P] by (simp add: sortSlice.rep_eq)

lemma sortSlice_sorted: "sorted (map k (sortSlice P k xs))"
  using Rep_sorter [of P] by (simp add: sortSlice.rep_eq)

lemma sortSlice_set: "set (sortSlice P k xs) = set xs"
  by (rule mset_eq_setD) (rule sortSlice_mset)

lemma sortSlice_distinct_map: "distinct (map f (sortSlice P k xs)) = distinct (map f xs)"
proof -
  have "mset (map f (sortSlice P k xs)) = mset (map f xs)"
    by (simp add: sortSlice_mset)
  then show ?thesis by (rule mset_eq_imp_distinct_iff)
qed

lemma firstWins_sortSlice:
  "firstWins cs (sortSlice P k es) vs = firstWins cs es vs"
  unfolding firstWins_def list_all_iff
  by (simp only: sortSlice_distinct_map sortSlice_set)

text \<open>Where the keys are distinct there is one sorted permutation, so every sorter gives it.\<close>

lemma filter_key_distinct:
  "distinct (map k xs) \<Longrightarrow> x \<in> set xs \<Longrightarrow> filter (\<lambda>y. k x = k y) xs = [x]"
proof (induction xs)
  case Nil
  then show ?case by simp
next
  case (Cons a xs)
  show ?case
  proof (cases "x = a")
    case True
    from Cons.prems(1) have "\<forall>y\<in>set xs. k a \<noteq> k y" by auto
    then have "filter (\<lambda>y. k a = k y) xs = []" by (simp add: filter_empty_conv)
    with True show ?thesis by simp
  next
    case False
    with Cons.prems have mem: "x \<in> set xs" and d: "distinct (map k xs)" by auto
    from Cons.prems(1) mem have "k x \<noteq> k a" by (auto simp: image_iff)
    with Cons.IH [OF d mem] show ?thesis by simp
  qed
qed

lemma sortSlice_distinct_keys:
  assumes "distinct (map k xs)"
  shows "sortSlice P k xs = sort_key k xs"
proof (rule sym, rule properties_for_sort_key)
  show "mset (sortSlice P k xs) = mset xs" by (rule sortSlice_mset)
  show "sorted (map k (sortSlice P k xs))" by (rule sortSlice_sorted)
  fix x assume "x \<in> set (sortSlice P k xs)"
  then have x: "x \<in> set xs" by (simp only: sortSlice_set)
  have d: "distinct (map k (sortSlice P k xs))"
    using assms by (simp only: sortSlice_distinct_map)
  from x have x': "x \<in> set (sortSlice P k xs)" by (simp only: sortSlice_set)
  show "filter (\<lambda>y. k x = k y) (sortSlice P k xs) = filter (\<lambda>y. k x = k y) xs"
    by (simp only: filter_key_distinct [OF assms x] filter_key_distinct [OF d x'])
qed

lemma sortSlice_any:
  assumes "distinct (map k xs)"
  shows "sortSlice P k xs = sortSlice P' k xs"
  by (simp only: sortSlice_distinct_keys [OF assms])

subsection \<open>The tables of a build\<close>

lemma buildTables_firstWins:
  assumes "buildTables U P (Record header # rows) filt = Inr (es, vs)"
  shows "firstWins (candidates U filt rows) es vs"
    and "sorted (map (\<lambda>e. ParseInt16 (OUI e)) es)"
proof -
  from assms obtain st where loop: "buildLoop U filt initState rows = Inr st"
    and es: "es = sortSlice P (\<lambda>e. ParseInt16 (OUI e)) (entriesAcc st)"
    and vs: "vs = vendorsAcc st"
    by (auto simp: buildTables_def split: sum.splits)
  from buildLoop_inv [OF buildInv_init loop]
  have "firstWins (candidates U filt rows) (entriesAcc st) (vendorsAcc st)"
    by (simp add: buildInvD(5))
  then show "firstWins (candidates U filt rows) es vs"
    unfolding es vs by (simp only: firstWins_sortSlice)
  show "sorted (map (\<lambda>e. ParseInt16 (OUI e)) es)"
    unfolding es by (rule sortSlice_sorted)
qed

text \<open>
  A build whose entries have distinct numeric values gives the same tables with every
  sorter.
\<close>

lemma buildTables_any_sorter:
  assumes b: "buildTables U P csv filt = Inr (es, vs)"
    and d: "distinct (map (\<lambda>e. ParseInt16 (OUI e)) es)"
  shows "buildTables U P' csv filt = Inr (es, vs)"
proof (cases csv)
  case Nil
  with b show ?thesis by (simp add: buildTables_def)
next
  case (Cons r rows)
  show ?thesis
  proof (cases r)
    case ReadFailure
    with b Cons show ?thesis by (simp add: buildTables_def)
  next
    case (Record header)
    with b Cons obtain st where loop: "buildLoop U filt initState rows = Inr st"
      and es: "es = sortSlice P (\<lambda>e. ParseInt16 (OUI e)) (entriesAcc st)"
      and vs: "vs = vendorsAcc st"
      by (auto simp: buildTables_def split: sum.splits)
    from d have "distinct (map (\<lambda>e. ParseInt16 (OUI e)) (entriesAcc st))"
      unfolding es by (simp only: sortSlice_distinct_map)
    then have "sortSlice P' (\<lambda>e. ParseInt16 (OUI e)) (entriesAcc st) = es"
      unfolding es by (rule sortSlice_any)
    with loop vs Cons Record show ?thesis by (simp add: buildTables_def)
  qed
qed

lemma buildAndLookup_any_sorter:
  assumes "buildTables U P csv filt = buildTables U P' csv filt"
  shows "buildAndLookup U P csv filt q = buildAndLookup U P' csv filt q"
  using assms by (simp only: buildAndLookup_def buildFromCSV_def)

lemma newTemplateData_any_sorter:
  assumes b: "newTemplateData U P csv flt = Return (es, vs)"
    and d: "distinct (map (\<lambda>e. ParseInt16 (OUI e)) es)"
  shows "newTemplateData U P' csv flt = Return (es, vs)"
proof (cases csv)
  case Nil
  with b show ?thesis by (simp add: newTemplateData_def)
next
  case (Cons r rows)
  show ?thesis
  proof (cases r)
    case ReadFailure
    with b Cons show ?thesis by (simp add: newTemplateData_def)
  next
    case (Record header)
    with b Cons obtain st where loop: "templateLoop U flt initState rows = Return st"
      and ok: "\<not> (2 \<le> length (entriesAcc st)
                  \<and> list_ex (\<lambda>e. ParseInt16_fails (OUI e)) (entriesAcc st))"
      and es: "es = sortSlice P (\<lambda>e. ParseInt16 (OUI e)) (entriesAcc st)"
      and vs: "vs = vendorsAcc st"
      by (auto simp: newTemplateData_def split: outcome.splits if_splits)
    from d have "distinct (map (\<lambda>e. ParseInt16 (OUI e)) (entriesAcc st))"
      unfolding es by (simp only: sortSlice_distinct_map)
    then have "sortSlice P' (\<lambda>e. ParseInt16 (OUI e)) (entriesAcc st) = es"
      unfolding es by (rule sortSlice_any)
    with loop ok vs Cons Record show ?thesis by (simp add: newTemplateData_def)
  qed
qed

lemma candidates_cmd_Cons_Record:
  "candidates_cmd U flt (Record record # rows) =
     (case candidate_cmd U flt record of Return (Some kv) \<Rightarrow> [kv] | _ \<Rightarrow> [])
     @ candidates_cmd U flt rows"
  by (simp add: candidates_cmd_def)

lemma templateLoop_inv:
  "buildInv st cs \<Longrightarrow> templateLoop U flt st rows = Return st'
     \<Longrightarrow> buildInv st' (cs @ candidates_cmd U flt rows)"
proof (induction rows arbitrary: st cs)
  case Nil
  then show ?case by (simp add: candidates_cmd_def)
next
  case (Cons r rows)
  show ?case
  proof (cases r)
    case ReadFailure
    with Cons.prems show ?thesis by simp
  next
    case (Record fields)
    show ?thesis
    proof (cases "candidate_cmd U flt fields")
      case Panic
      with Cons.prems Record show ?thesis by simp
    next
      case (Return c)
      show ?thesis
      proof (cases c)
        case None
        with Cons.prems Record Return have "templateLoop U flt st rows = Return st'" by simp
        from Cons.IH [OF Cons.prems(1) this] None Return Record show ?thesis
          by (simp add: candidates_cmd_Cons_Record)
      next
        case (Some kv)
        with Cons.prems Record Return
        have "templateLoop U flt (register st kv) rows = Return st'" by simp
        from Cons.IH [OF buildInv_register [OF Cons.prems(1)] this] Some Return Record
        show ?thesis by (simp add: candidates_cmd_Cons_Record)
      qed
    qed
  qed
qed

lemma newTemplateData_firstWins:
  assumes "newTemplateData U P (Record header # rows) flt = Return (es, vs)"
  shows "firstWins (candidates_cmd U flt rows) es vs"
    and "sorted (map (\<lambda>e. ParseInt16 (OUI e)) es)"
proof -
  from assms obtain st where loop: "templateLoop U flt initState rows = Return st"
    and es: "es = sortSlice P (\<lambda>e. ParseInt16 (OUI e)) (entriesAcc st)"
    and vs: "vs = vendorsAcc st"
    by (auto simp: newTemplateData_def split: outcome.splits if_splits)
  from templateLoop_inv [OF buildInv_init loop]
  have "firstWins (candidates_cmd U flt rows) (entriesAcc st) (vendorsAcc st)"
    by (simp add: buildInvD(5))
  then show "firstWins (candidates_cmd U flt rows) es vs"
    unfolding es vs by (simp only: firstWins_sortSlice)
  show "sorted (map (\<lambda>e. ParseInt16 (OUI e)) es)"
    unfolding es by (rule sortSlice_sorted)
qed

text \<open>
  C4. Dedup idempotence and first occurrence wins, for the builder of the library
  (\<^verbatim>\<open>buildFromCSV\<close>) and for the builder of the command (\<^verbatim>\<open>newTemplateData\<close>), whatever
  the sort does with entries of equal value: two builds from the same registry give
  the same entries table and vendor table (the builder reads nothing but its input);
  the entries table holds each OUI of the rows that pass the filter exactly once, with
  the vendor name of the first such row, so a later row with an OUI already assigned
  leaves no trace for that OUI; and the ID of an entry is the position of its vendor
  name in the vendor table. The entries are in ascending order of the numeric value
  of the OUI.
\<close>

theorem build_first_occurrence_wins:
  "(buildTables U P (Record header # rows) filt = Inr (es, vs) \<longrightarrow>
      firstWins (candidates U filt rows) es vs
      \<and> sorted (map (\<lambda>e. ParseInt16 (OUI e)) es)
      \<and> (\<forall>es' vs'. buildTables U P (Record header # rows) filt = Inr (es', vs')
            \<longrightarrow> es' = es \<and> vs' = vs))
   \<and> (newTemplateData U P (Record header # rows) flt = Return (ces, cvs) \<longrightarrow>
      firstWins (candidates_cmd U flt rows) ces cvs
      \<and> sorted (map (\<lambda>e. ParseInt16 (OUI e)) ces)
      \<and> (\<forall>es' vs'. newTemplateData U P (Record header # rows) flt = Return (es', vs')
            \<longrightarrow> es' = ces \<and> vs' = cvs))"
  using buildTables_firstWins newTemplateData_firstWins by simp

theorem build_first_occurrence_wins_witness:
  "buildTables (\<lambda>s. s) stableSort
     (Record [''Registry'', ''Assignment'', ''Organization Name'']
      # [Record [''MA-L'', ''000002'', ''Bolt Inc''], Record [''MA-L'', ''000001'', ''Acme''],
         Record [''MA-L'', ''000002'', ''Other'']]) None
     = Inr ([\<lparr>OUI = ''000001'', VendorID = 1, Vendor = ''Acme''\<rparr>,
             \<lparr>OUI = ''000002'', VendorID = 0, Vendor = ''Bolt''\<rparr>], [''Bolt'', ''Acme''])
   \<and> newTemplateData (\<lambda>s. s) stableSort
     (Record [''Registry'', ''Assignment'', ''Organization Name'']
      # [Record [''MA-L'', ''000002'', ''Bolt Inc''], Record [''MA-L'', ''000001'', ''Acme''],
         Record [''MA-L'', ''000002'', ''Other'']]) None
     = Return ([\<lparr>OUI = ''000001'', VendorID = 1, Vendor = ''Acme''\<rparr>,
                \<lparr>OUI = ''000002'', VendorID = 0, Vendor = ''Bolt''\<rparr>], [''Bolt'', ''Acme''])
   \<and> candidates (\<lambda>s. s) None
        [Record [''MA-L'', ''000002'', ''Bolt Inc''], Record [''MA-L'', ''000001'', ''Acme''],
         Record [''MA-L'', ''000002'', ''Other'']]
     = [(''000002'', ''Bolt''), (''000001'', ''Acme''), (''000002'', ''Other'')]
   \<and> firstWins
        (candidates (\<lambda>s. s) None
          [Record [''MA-L'', ''000002'', ''Bolt Inc''], Record [''MA-L'', ''000001'', ''Acme''],
           Record [''MA-L'', ''000002'', ''Other'']])
        [\<lparr>OUI = ''000001'', VendorID = 1, Vendor = ''Acme''\<rparr>,
         \<lparr>OUI = ''000002'', VendorID = 0, Vendor = ''Bolt''\<rparr>] [''Bolt'', ''Acme'']
   \<and> firstWins
        (candidates_cmd (\<lambda>s. s) None
          [Record [''MA-L'', ''000002'', ''Bolt Inc''], Record [''MA-L'', ''000001'', ''Acme''],
           Record [''MA-L'', ''000002'', ''Other'']])
        [\<lparr>OUI = ''000001'', VendorID = 1, Vendor = ''Acme''\<rparr>,
         \<lparr>OUI = ''000002'', VendorID = 0, Vendor = ''Bolt''\<rparr>] [''Bolt'', ''Acme'']"
proof -
  have b: "buildTables (\<lambda>s. s) stableSort
     (Record [''Registry'', ''Assignment'', ''Organization Name'']
      # [Record [''MA-L'', ''000002'', ''Bolt Inc''], Record [''MA-L'', ''000001'', ''Acme''],
         Record [''MA-L'', ''000002'', ''Other'']]) None
     = Inr ([\<lparr>OUI = ''000001'', VendorID = 1, Vendor = ''Acme''\<rparr>,
             \<lparr>OUI = ''000002'', VendorID = 0, Vendor = ''Bolt''\<rparr>], [''Bolt'', ''Acme''])"
    by code_simp
  have n: "newTemplateData (\<lambda>s. s) stableSort
     (Record [''Registry'', ''Assignment'', ''Organization Name'']
      # [Record [''MA-L'', ''000002'', ''Bolt Inc''], Record [''MA-L'', ''000001'', ''Acme''],
         Record [''MA-L'', ''000002'', ''Other'']]) None
     = Return ([\<lparr>OUI = ''000001'', VendorID = 1, Vendor = ''Acme''\<rparr>,
                \<lparr>OUI = ''000002'', VendorID = 0, Vendor = ''Bolt''\<rparr>], [''Bolt'', ''Acme''])"
    by code_simp
  have c: "candidates (\<lambda>s. s) None
        [Record [''MA-L'', ''000002'', ''Bolt Inc''], Record [''MA-L'', ''000001'', ''Acme''],
         Record [''MA-L'', ''000002'', ''Other'']]
     = [(''000002'', ''Bolt''), (''000001'', ''Acme''), (''000002'', ''Other'')]"
    by code_simp
  from b n c build_first_occurrence_wins
    [of "\<lambda>s. s" stableSort "[''Registry'', ''Assignment'', ''Organization Name'']"
        "[Record [''MA-L'', ''000002'', ''Bolt Inc''], Record [''MA-L'', ''000001'', ''Acme''],
          Record [''MA-L'', ''000002'', ''Other'']]" None
        "[\<lparr>OUI = ''000001'', VendorID = 1, Vendor = ''Acme''\<rparr>,
          \<lparr>OUI = ''000002'', VendorID = 0, Vendor = ''Bolt''\<rparr>]" "[''Bolt'', ''Acme'']" None
        "[\<lparr>OUI = ''000001'', VendorID = 1, Vendor = ''Acme''\<rparr>,
          \<lparr>OUI = ''000002'', VendorID = 0, Vendor = ''Bolt''\<rparr>]" "[''Bolt'', ''Acme'']"]
  show ?thesis by blast
qed

subsection \<open>Build, then look up\<close>

text \<open>
  The tables and the two lookups of the registry with the rows \<^verbatim>\<open>AABBCC, Acme\<close> and
  \<^verbatim>\<open>112233, Bolt\<close>, computed with the stable sorter; the two OUIs differ in value, so
  every sorter gives the same.
\<close>

lemma two_rows_tables:
  "buildTables U stableSort
     [Record [''Registry'', ''Assignment'', ''Organization Name''],
      Record [''MA-L'', ''AABBCC'', ''Acme''], Record [''MA-L'', ''112233'', ''Bolt'']] None
     = Inr ([\<lparr>OUI = ''112233'', VendorID = 1, Vendor = ''Bolt''\<rparr>,
             \<lparr>OUI = ''aabbcc'', VendorID = 0, Vendor = ''Acme''\<rparr>], [''Acme'', ''Bolt''])"
  by code_simp

lemma two_rows_distinct:
  "distinct (map (\<lambda>e. ParseInt16 (OUI e))
     [\<lparr>OUI = ''112233'', VendorID = 1, Vendor = ''Bolt''\<rparr>,
      \<lparr>OUI = ''aabbcc'', VendorID = 0, Vendor = ''Acme''\<rparr>])"
  by code_simp

lemma two_rows_lookups:
  "buildAndLookup U stableSort
     [Record [''Registry'', ''Assignment'', ''Organization Name''],
      Record [''MA-L'', ''AABBCC'', ''Acme''], Record [''MA-L'', ''112233'', ''Bolt'']] None
     ''aabbcc'' = Some (Inr (Return ('''', False)))
   \<and> buildAndLookup U stableSort
     [Record [''Registry'', ''Assignment'', ''Organization Name''],
      Record [''MA-L'', ''AABBCC'', ''Acme''], Record [''MA-L'', ''112233'', ''Bolt'']] None
     ''112233'' = Some (Inr (Return (''Acme'', True)))"
  by code_simp

text \<open>
  C1. Round trip of build then lookup. The claim fails on the code: \<^verbatim>\<open>buildFromCSV\<close>
  numbers the vendors from 0 (\<^verbatim>\<open>for id := 0; ; \<close>), while \<^verbatim>\<open>Lookup\<close> rejects an ID that
  is not positive and \<^verbatim>\<open>vendorByID\<close> reads line \<open>id\<close> counting from 1. From a registry
  with the rows \<^verbatim>\<open>AABBCC, Acme\<close> and \<^verbatim>\<open>112233, Bolt\<close> the builder gives Acme the ID 0
  and Bolt the ID 1; after opening the files written, \<^verbatim>\<open>aabbcc\<close> is not found and
  \<^verbatim>\<open>112233\<close> is answered with Acme.
\<close>

theorem build_then_lookup_off_by_one:
  "buildTables U P
     [Record [''Registry'', ''Assignment'', ''Organization Name''],
      Record [''MA-L'', ''AABBCC'', ''Acme''], Record [''MA-L'', ''112233'', ''Bolt'']] None
     = Inr ([\<lparr>OUI = ''112233'', VendorID = 1, Vendor = ''Bolt''\<rparr>,
             \<lparr>OUI = ''aabbcc'', VendorID = 0, Vendor = ''Acme''\<rparr>], [''Acme'', ''Bolt''])
   \<and> buildAndLookup U P
     [Record [''Registry'', ''Assignment'', ''Organization Name''],
      Record [''MA-L'', ''AABBCC'', ''Acme''], Record [''MA-L'', ''112233'', ''Bolt'']] None
     ''aabbcc'' = Some (Inr (Return ('''', False)))
   \<and> buildAndLookup U P
     [Record [''Registry'', ''Assignment'', ''Organization Name''],
      Record [''MA-L'', ''AABBCC'', ''Acme''], Record [''MA-L'', ''112233'', ''Bolt'']] None
     ''112233'' = Some (Inr (Return (''Acme'', True)))"
proof -
  have t: "buildTables U P
     [Record [''Registry'', ''Assignment'', ''Organization Name''],
      Record [''MA-L'', ''AABBCC'', ''Acme''], Record [''MA-L'', ''112233'', ''Bolt'']] None
     = Inr ([\<lparr>OUI = ''112233'', VendorID = 1, Vendor = ''Bolt''\<rparr>,
             \<lparr>OUI = ''aabbcc'', VendorID = 0, Vendor = ''Acme''\<rparr>], [''Acme'', ''Bolt''])"
    by (rule buildTables_any_sorter [OF two_rows_tables two_rows_distinct])
  then have "buildTables U P
     [Record [''Registry'', ''Assignment'', ''Organization Name''],
      Record [''MA-L'', ''AABBCC'', ''Acme''], Record [''MA-L'', ''112233'', ''Bolt'']] None
     = buildTables U stableSort
     [Record [''Registry'', ''Assignment'', ''Organization Name''],
      Record [''MA-L'', ''AABBCC'', ''Acme''], Record [''MA-L'', ''112233'', ''Bolt'']] None"
    by (simp only: two_rows_tables)
  then have "buildAndLookup U P
     [Record [''Registry'', ''Assignment'', ''Organization Name''],
      Record [''MA-L'', ''AABBCC'', ''Acme''], Record [''MA-L'', ''112233'', ''Bolt'']] None q
     = buildAndLookup U stableSort
     [Record [''Registry'', ''Assignment'', ''Organization Name''],
      Record [''MA-L'', ''AABBCC'', ''Acme''], Record [''MA-L'', ''112233'', ''Bolt'']] None q" for q
    by (rule buildAndLookup_any_sorter)
  with t two_rows_lookups show ?thesis by (simp only: simp_thms)
qed

end
